theory Spec2Isabelle
  imports Complex_Main "HOL-Library.AList" "HOL-Library.Multiset"
begin

section \<open>Data model\<close>

text \<open>
  A Bio.Phylo clade as \<^verbatim>\<open>augur/titers.py\<close> reads it: an optional name (an unnamed
  Newick node has \<^verbatim>\<open>name = None\<close>) and the ordered list of its children
  (\<^verbatim>\<open>clades\<close>). A tree read from a Newick file is a proper tree, so a clade
  object is identified by its position: the child indices leading to it from the root.
\<close>

datatype clade = Clade (name: "string option") (clades: "clade list")

type_synonym addr = "nat list"

text \<open>A (gene, mutation) pair, the key of \<^verbatim>\<open>substitution_effect\<close>.\<close>

type_synonym mutation = "string \<times> string"

text \<open>
  Python dictionaries of the result document are association lists updated with
  \<^const>\<open>AList.update\<close>: a new key is appended, an existing key keeps its place
  and takes the new value. The inner dictionary of a node is
  \<^verbatim>\<open>{"dTiterSub": d, "cTiterSub": c}\<close>; the \<^verbatim>\<open>nodes\<close> dictionary is keyed by
  the node's name.
\<close>

type_synonym 'v annotation = "(string \<times> 'v) list"

type_synonym 'v node_data = "(string option \<times> 'v annotation) list"

text \<open>
  Exceptions are values. \<open>AttributeError\<close> is reading \<^verbatim>\<open>node.cTiterSub\<close> (or
  \<^verbatim>\<open>n.dTiter\<close>, \<^verbatim>\<open>n.cTiter\<close>) on a clade that does not carry the attribute;
  \<open>TypeError\<close> is \<^verbatim>\<open>Phylo.read(None, ...)\<close>; \<open>InsufficientData\<close> is the
  condition of the model fit; \<open>External\<close> is any exception raised inside a collaborator
  whose code is outside \<^verbatim>\<open>titers.py\<close>.
\<close>

datatype error = AttributeError | TypeError | InsufficientData | External string

text \<open>
  The fitted substitution model \<^verbatim>\<open>TM_subs\<close> after \<^verbatim>\<open>prepare()\<close> and
  \<^verbatim>\<open>train()\<close>, as far as \<^verbatim>\<open>run\<close> uses it: the four compiled tables (opaque
  JSON values of type \<open>'c\<close>), the dictionary \<^verbatim>\<open>substitution_effect\<close> and the method
  \<^verbatim>\<open>get_mutations(child_name, parent_name)\<close>, which may raise (returning
  \<^verbatim>\<open>None\<close> makes the loop over its result raise, so it is an error too). The three
  tables that both fitted models compile are the record \<open>titer_model\<close>. Numbers are of
  an arbitrary type \<open>'v\<close> with \<open>0\<close> and \<open>+\<close>: the definitions assume nothing of
  addition, so the order of every sum is the order of the code. Only the two properties
  about sums and order (C3, C9) are stated for an additive monoid and an ordered one.
\<close>

record 'c titer_model =
  compile_titers :: 'c
  compile_potencies :: 'c
  compile_virus_effects :: 'c

record ('c, 'v) substitution_model = "'c titer_model" +
  compile_substitution_effects :: 'c
  substitution_effect :: "mutation \<rightharpoonup> 'v"
  get_mutations :: "string option \<Rightarrow> string option \<Rightarrow> error + mutation list"

text \<open>
  The fitted tree model \<^verbatim>\<open>TM_tree\<close> after \<^verbatim>\<open>train()\<close>: the compiled tables and the
  attributes \<^verbatim>\<open>dTiter\<close> and \<^verbatim>\<open>cTiter\<close> that the fit left on the clade objects of
  the tree (unmapped where a clade does not carry the attribute).
\<close>

record ('c, 'v) tree_model = "'c titer_model" +
  dTiter :: "addr \<rightharpoonup> 'v"
  cTiter :: "addr \<rightharpoonup> 'v"

text \<open>
  The result document: a dictionary from keys to JSON values, which are either a
  compiled table or a \<^verbatim>\<open>nodes\<close> dictionary. The files written so far are a map
  from paths to documents.
\<close>

datatype ('c, 'v) json = Compiled 'c | NodeData "'v node_data"

type_synonym ('c, 'v) document = "(string \<times> ('c, 'v) json) list"

type_synonym ('c, 'v) files = "string \<rightharpoonup> ('c, 'v) document"

text \<open>The parsed command line (\<^verbatim>\<open>register_arguments\<close>); \<^verbatim>\<open>--tree\<close> is optional for
  \<^verbatim>\<open>sub\<close>; \<open>output_path\<close> is \<^verbatim>\<open>args.output\<close>.\<close>

record args =
  titers :: string
  alignment :: "string list"
  gene_names :: "string list"
  tree :: "string option"
  output_path :: string

text \<open>
  The collaborators outside \<^verbatim>\<open>titers.py\<close>, as parameters: \<^verbatim>\<open>load_alignments\<close>,
  the model classes of \<^verbatim>\<open>titer_model\<close> (construction, \<^verbatim>\<open>prepare()\<close> and
  \<^verbatim>\<open>train()\<close> in one step, any of which may raise) and \<^verbatim>\<open>Phylo.read\<close>.
\<close>

record ('al, 'c, 'v) env =
  load_alignments :: "string list \<Rightarrow> string list \<Rightarrow> error + 'al"
  SubstitutionModel :: "'al \<Rightarrow> string \<Rightarrow> error + ('c, 'v) substitution_model"
  TreeModel :: "clade \<Rightarrow> string \<Rightarrow> error + ('c, 'v) tree_model"
  Phylo_read :: "string \<Rightarrow> error + clade"

section \<open>Traversal: \<^verbatim>\<open>tree.find_clades()\<close>\<close>

text \<open>
  Bio.Phylo's \<^verbatim>\<open>find_clades()\<close> with no arguments walks the tree depth first in
  preorder: a clade, then the walk of each of its children in order. Each clade is
  listed with its position.
\<close>

fun find_clades_at :: "addr \<Rightarrow> clade \<Rightarrow> (addr \<times> clade) list"
  and find_clades_list :: "addr \<Rightarrow> nat \<Rightarrow> clade list \<Rightarrow> (addr \<times> clade) list" where
  "find_clades_at p (Clade n cs) = (p, Clade n cs) # find_clades_list p 0 cs"
| "find_clades_list p i [] = []"
| "find_clades_list p i (c # cs) = find_clades_at (p @ [i]) c @ find_clades_list p (Suc i) cs"

definition find_clades :: "clade \<Rightarrow> (addr \<times> clade) list" where
  "find_clades t = find_clades_at [] t"

text \<open>The clade at a position, if the position exists in the tree.\<close>

fun subtree_at :: "clade \<Rightarrow> addr \<Rightarrow> clade option" where
  "subtree_at t [] = Some t"
| "subtree_at t (i # q) =
     (if i < length (clades t) then subtree_at (clades t ! i) q else None)"

section \<open>The substitution model's annotation (\<^verbatim>\<open>infer_substitution_model.run\<close>, lines 56-81)\<close>

text \<open>
  The state the loops change: the attribute \<^verbatim>\<open>cTiterSub\<close> that the code sets on
  clade objects (a store from positions to values; a clade without the attribute is
  unmapped) and the dictionary \<^verbatim>\<open>nodes\<close>.
\<close>

record 'v annot_state =
  cTiterSub :: "addr \<rightharpoonup> 'v"
  nodes :: "'v node_data"

text \<open>\<^verbatim>\<open>TM_subs.substitution_effect.get((gene, mutation), 0)\<close>\<close>

definition effect_get :: "(mutation \<rightharpoonup> 'v::zero) \<Rightarrow> mutation \<Rightarrow> 'v" where
  "effect_get eff gm = (case eff gm of None \<Rightarrow> 0 | Some v \<Rightarrow> v)"

text \<open>
  Lines 67-72: the mutations of the branch, then
  \<^verbatim>\<open>dTiterSub = 0; for gene, mutation in mutations: dTiterSub += effect.get(..., 0)\<close>.
\<close>

definition dTiterSub :: "('c, 'v::{zero,plus}) substitution_model \<Rightarrow> clade \<Rightarrow> clade \<Rightarrow> error + 'v" where
  "dTiterSub M child node =
     (case get_mutations M (name child) (name node) of
        Inl e \<Rightarrow> Inl e
      | Inr mutations \<Rightarrow>
          Inr (foldl (\<lambda>d gm. d + effect_get (substitution_effect M) gm) 0 mutations))"

definition annotation :: "'v \<Rightarrow> 'v \<Rightarrow> 'v annotation" where
  "annotation d c = [(''dTiterSub'', d), (''cTiterSub'', c)]"

text \<open>
  The inner loop \<^verbatim>\<open>for child in node.clades\<close> (lines 65-81); \<open>p\<close> is the position of
  \<open>node\<close> and \<open>i\<close> the index of the next child. \<^verbatim>\<open>node.cTiterSub\<close> is read from the
  store at every child and raises when the attribute is not set.
\<close>

fun annotate_children ::
  "('c, 'v::{zero,plus}) substitution_model \<Rightarrow> addr \<Rightarrow> clade \<Rightarrow> nat \<Rightarrow> clade list \<Rightarrow>
   'v annot_state \<Rightarrow> error + 'v annot_state" where
  "annotate_children M p node i [] s = Inr s"
| "annotate_children M p node i (child # rest) s =
     (case dTiterSub M child node of
        Inl e \<Rightarrow> Inl e
      | Inr d \<Rightarrow>
          (case cTiterSub s p of
             None \<Rightarrow> Inl AttributeError
           | Some c \<Rightarrow>
               annotate_children M p node (Suc i) rest
                 \<lparr>cTiterSub = (cTiterSub s)(p @ [i] \<mapsto> c + d),
                  nodes = AList.update (name child) (annotation d (c + d)) (nodes s)\<rparr>))"

text \<open>The outer loop \<^verbatim>\<open>for node in tree.find_clades()\<close> (line 64).\<close>

fun annotate_clades ::
  "('c, 'v::{zero,plus}) substitution_model \<Rightarrow> (addr \<times> clade) list \<Rightarrow>
   'v annot_state \<Rightarrow> error + 'v annot_state" where
  "annotate_clades M [] s = Inr s"
| "annotate_clades M ((p, node) # rest) s =
     (case annotate_children M p node 0 (clades node) s of
        Inl e \<Rightarrow> Inl e
      | Inr s' \<Rightarrow> annotate_clades M rest s')"

text \<open>
  Lines 56-81: \<^verbatim>\<open>tree.root.cTiterSub = 0\<close>, the initial \<^verbatim>\<open>nodes\<close> dictionary with
  the root's entry, then the loops. Before, no clade carries the attribute.
\<close>

definition init_state :: "clade \<Rightarrow> ('v::zero) annot_state" where
  "init_state t = \<lparr>cTiterSub = [[] \<mapsto> 0], nodes = [(name t, annotation 0 0)]\<rparr>"

definition annotate ::
  "('c, 'v::{zero,plus}) substitution_model \<Rightarrow> clade \<Rightarrow> error + 'v annot_state" where
  "annotate M t = annotate_clades M (find_clades t) (init_state t)"

section \<open>The two commands\<close>

text \<open>\<^verbatim>\<open>write_json(document, path)\<close>\<close>

definition write_json :: "('c, 'v) document \<Rightarrow> string \<Rightarrow> ('c, 'v) files \<Rightarrow> ('c, 'v) files" where
  "write_json doc path fs = fs(path \<mapsto> doc)"

text \<open>
  \<^verbatim>\<open>infer_substitution_model.run\<close>, lines 42-83: the document before it is written.
  \<^verbatim>\<open>if args.tree:\<close> is Python truthiness: \<^verbatim>\<open>None\<close> and the empty string are false.
\<close>

definition substitution_document ::
  "('al, 'c, 'v::{zero,plus}) env \<Rightarrow> args \<Rightarrow> error + ('c, 'v) document" where
  "substitution_document E a =
     (case load_alignments E (alignment a) (gene_names a) of
        Inl e \<Rightarrow> Inl e
      | Inr alignments \<Rightarrow>
          (case SubstitutionModel E alignments (titers a) of
             Inl e \<Rightarrow> Inl e
           | Inr TM_subs \<Rightarrow>
               (let subs_model =
                      [(''titers'', Compiled (compile_titers TM_subs)),
                       (''potency'', Compiled (compile_potencies TM_subs)),
                       (''avidity'', Compiled (compile_virus_effects TM_subs)),
                       (''substitution'', Compiled (compile_substitution_effects TM_subs))]
                in case tree a of
                     None \<Rightarrow> Inr subs_model
                   | Some path \<Rightarrow>
                       if path = [] then Inr subs_model
                       else (case Phylo_read E path of
                               Inl e \<Rightarrow> Inl e
                             | Inr t \<Rightarrow>
                                 (case annotate TM_subs t of
                                    Inl e \<Rightarrow> Inl e
                                  | Inr s \<Rightarrow>
                                      Inr (AList.update ''nodes'' (NodeData (nodes s)) subs_model))))))"

text \<open>
  The whole command: the document is written last (line 86), so an exception before
  leaves the files as they were. The two \<^verbatim>\<open>print\<close> calls that follow are not
  modelled.
\<close>

definition infer_substitution_model_run ::
  "('al, 'c, 'v::{zero,plus}) env \<Rightarrow> args \<Rightarrow> ('c, 'v) files \<Rightarrow> (error + unit) \<times> ('c, 'v) files" where
  "infer_substitution_model_run E a fs =
     (case substitution_document E a of
        Inl e \<Rightarrow> (Inl e, fs)
      | Inr subs_model \<Rightarrow> (Inr (), write_json subs_model (output_path a) fs))"

text \<open>
  \<^verbatim>\<open>infer_tree_model.run\<close>, lines 106-107: the dictionary comprehension over
  \<^verbatim>\<open>T.find_clades()\<close>, reading the attributes \<^verbatim>\<open>dTiter\<close> and \<^verbatim>\<open>cTiter\<close> of
  each clade.
\<close>

definition tree_annotation :: "'v \<Rightarrow> 'v \<Rightarrow> 'v annotation" where
  "tree_annotation d c = [(''dTiter'', d), (''cTiter'', c)]"

fun tree_nodes ::
  "('c, 'v) tree_model \<Rightarrow> (addr \<times> clade) list \<Rightarrow> 'v node_data \<Rightarrow> error + 'v node_data" where
  "tree_nodes TM [] acc = Inr acc"
| "tree_nodes TM ((p, n) # rest) acc =
     (case dTiter TM p of
        None \<Rightarrow> Inl AttributeError
      | Some d \<Rightarrow>
          (case cTiter TM p of
             None \<Rightarrow> Inl AttributeError
           | Some c \<Rightarrow> tree_nodes TM rest (AList.update (name n) (tree_annotation d c) acc)))"

text \<open>\<^verbatim>\<open>infer_tree_model.run\<close>, lines 97-107; \<^verbatim>\<open>--tree\<close> is required here.\<close>

definition tree_document ::
  "('al, 'c, 'v) env \<Rightarrow> args \<Rightarrow> error + ('c, 'v) document" where
  "tree_document E a =
     (case tree a of
        None \<Rightarrow> Inl TypeError
      | Some path \<Rightarrow>
          (case Phylo_read E path of
             Inl e \<Rightarrow> Inl e
           | Inr T \<Rightarrow>
               (case TreeModel E T (titers a) of
                  Inl e \<Rightarrow> Inl e
                | Inr TM_tree \<Rightarrow>
                    (case tree_nodes TM_tree (find_clades T) [] of
                       Inl e \<Rightarrow> Inl e
                     | Inr nd \<Rightarrow>
                         Inr [(''titers'', Compiled (compile_titers TM_tree)),
                              (''potency'', Compiled (compile_potencies TM_tree)),
                              (''avidity'', Compiled (compile_virus_effects TM_tree)),
                              (''nodes'', NodeData nd)]))))"

definition infer_tree_model_run ::
  "('al, 'c, 'v) env \<Rightarrow> args \<Rightarrow> ('c, 'v) files \<Rightarrow> (error + unit) \<times> ('c, 'v) files" where
  "infer_tree_model_run E a fs =
     (case tree_document E a of
        Inl e \<Rightarrow> (Inl e, fs)
      | Inr tree_model \<Rightarrow> (Inr (), write_json tree_model (output_path a) fs))"

section \<open>The model fit\<close>

text \<open>
  Modelled from the spec: the model fit of \<^verbatim>\<open>titer_model\<close> (the constructor,
  \<^verbatim>\<open>prepare()\<close> and \<^verbatim>\<open>train()\<close>), whose code is not among the sources. Sections 4.3
  and 7 of the spec: the fit solves the system of the design matrix \<open>A\<close> (one row for
  each usable measurement) and the observed drops \<open>y\<close>; with no usable measurement it
  fails with the insufficient-data condition instead of solving.
\<close>

definition train :: "('r list \<Rightarrow> 'y \<Rightarrow> 'p) \<Rightarrow> 'r list \<Rightarrow> 'y \<Rightarrow> error + 'p" where
  "train solve A y = (if A = [] then Inl InsufficientData else Inr (solve A y))"











section \<open>Notions used to state the properties\<close>

text \<open>
  A visit is one write of the annotation: the position and the clade written for, and
  the parent clade (none for the root, written before the loops). \<open>annotation_order\<close>
  lists the visits in the order of the code: the root, then for every clade in
  \<^verbatim>\<open>find_clades\<close> order its children in order.
\<close>

type_synonym visit = "addr \<times> clade \<times> clade option"

definition child_visits_from :: "addr \<Rightarrow> clade \<Rightarrow> nat \<Rightarrow> clade list \<Rightarrow> visit list" where
  "child_visits_from p node i cs = map (\<lambda>(j, ch). (p @ [j], ch, Some node)) (enumerate i cs)"

definition child_visits :: "addr \<times> clade \<Rightarrow> visit list" where
  "child_visits x = child_visits_from (fst x) (snd x) 0 (clades (snd x))"

definition annotation_order :: "clade \<Rightarrow> visit list" where
  "annotation_order t = ([], t, None) # concat (map child_visits (find_clades t))"

text \<open>The name under which a visit writes, and the clade it visits.\<close>

definition visit_name :: "visit \<Rightarrow> string option" where
  "visit_name v = name (fst (snd v))"

definition visit_clade :: "visit \<Rightarrow> addr \<times> clade" where
  "visit_clade v = (fst v, fst (snd v))"

text \<open>
  \<open>child_of x y\<close>: the listed clade \<open>x\<close> is a child of the listed clade \<open>y\<close>;
  \<open>parents_first\<close>: in a list of clades every clade but the root comes after its parent.
\<close>

definition child_of :: "addr \<times> clade \<Rightarrow> addr \<times> clade \<Rightarrow> bool" where
  "child_of x y = (\<exists>i < length (clades (snd y)). fst x = fst y @ [i] \<and> snd x = clades (snd y) ! i)"

definition parents_first :: "(addr \<times> clade) list \<Rightarrow> bool" where
  "parents_first L = (\<forall>xs x ys. L = xs @ x # ys \<longrightarrow> fst x = [] \<or> (\<exists>y \<in> set xs. child_of x y))"

text \<open>
  The entry a visit writes into \<^verbatim>\<open>nodes\<close>, in terms of the attribute store \<open>cs\<close>;
  the same for the tree model's dictionary comprehension; and a sequence of writes
  applied to a dictionary.
\<close>

definition recorded ::
  "('c, 'v::{zero,plus}) substitution_model \<Rightarrow> (addr \<rightharpoonup> 'v) \<Rightarrow> visit \<Rightarrow>
   string option \<times> 'v annotation \<Rightarrow> bool" where
  "recorded M cs v e =
     (case v of (a, n, par) \<Rightarrow>
        fst e = name n \<and>
        (case par of
           None \<Rightarrow> snd e = annotation 0 0 \<and> cs a = Some 0
         | Some pn \<Rightarrow>
             (\<exists>c d. cs (butlast a) = Some c \<and> dTiterSub M n pn = Inr d \<and>
                    cs a = Some (c + d) \<and> snd e = annotation d (c + d))))"

definition tree_recorded ::
  "('c, 'v) tree_model \<Rightarrow> addr \<times> clade \<Rightarrow> string option \<times> 'v annotation \<Rightarrow> bool" where
  "tree_recorded TM x e =
     (fst e = name (snd x) \<and>
      (\<exists>d c. dTiter TM (fst x) = Some d \<and> cTiter TM (fst x) = Some c \<and> snd e = tree_annotation d c))"

definition store_all :: "'v node_data \<Rightarrow> (string option \<times> 'v annotation) list \<Rightarrow> 'v node_data" where
  "store_all al wl = foldl (\<lambda>al e. AList.update (fst e) (snd e) al) al wl"

text \<open>
  The invariant of the outer loop after the clades \<open>seen\<close>: the attribute is set on the
  root and on the children of the clades seen, and \<^verbatim>\<open>nodes\<close> holds the writes of the
  visits so far.
\<close>

definition child_addrs :: "(addr \<times> clade) list \<Rightarrow> addr set" where
  "child_addrs seen = {fst y @ [i] | y i. y \<in> set seen \<and> i < length (clades (snd y))}"

definition annot_inv ::
  "('c, 'v::{zero,plus}) substitution_model \<Rightarrow> clade \<Rightarrow> (addr \<times> clade) list \<Rightarrow> 'v annot_state \<Rightarrow> bool" where
  "annot_inv M t seen s =
     (dom (cTiterSub s) = insert [] (child_addrs seen) \<and>
      (\<exists>wl. nodes s = store_all [] wl \<and>
         list_all2 (recorded M (cTiterSub s)) (([], t, None) # concat (map child_visits seen)) wl))"

section \<open>Concrete inputs\<close>

text \<open>
  A tree with distinct names, a fitted model over the reals with two fitted effects (the
  pair \<open>(HA2, G2D)\<close> has no fitted effect) and the state the annotation leaves for them.
\<close>

definition example_tree :: clade where
  "example_tree =
     Clade (Some ''root'')
       [Clade (Some ''A'') [Clade (Some ''A1'') []],
        Clade (Some ''B'') []]"

definition example_mutations :: "string option \<Rightarrow> string option \<Rightarrow> error + mutation list" where
  "example_mutations child parent =
     (if child = Some ''A'' \<and> parent = Some ''root'' then Inr [(''HA1'', ''N145S'')]
      else if child = Some ''A1'' \<and> parent = Some ''A'' then Inr [(''HA1'', ''K135T''), (''HA2'', ''G2D'')]
      else if child = Some ''X'' \<and> parent = Some ''A'' then Inr [(''HA1'', ''K135T'')]
      else Inr [])"

definition example_model :: "(unit, real) substitution_model" where
  "example_model =
     \<lparr>compile_titers = (), compile_potencies = (), compile_virus_effects = (),
      compile_substitution_effects = (),
      substitution_effect = [(''HA1'', ''N145S'') \<mapsto> 1, (''HA1'', ''K135T'') \<mapsto> 2],
      get_mutations = example_mutations\<rparr>"

definition example_state :: "real annot_state" where
  "example_state =
     \<lparr>cTiterSub = [[] \<mapsto> 0, [0] \<mapsto> 1, [1] \<mapsto> 0, [0, 0] \<mapsto> 3],
      nodes = [(Some ''root'', annotation 0 0), (Some ''A'', annotation 1 1),
               (Some ''B'', annotation 0 0), (Some ''A1'', annotation 2 3)]\<rparr>"


text \<open>A model whose \<^verbatim>\<open>get_mutations\<close> raises (a name without a sequence).\<close>

definition failing_model :: "(unit, real) substitution_model" where
  "failing_model = example_model\<lparr>get_mutations := (\<lambda>child parent. Inl (External ''KeyError''))\<rparr>"

text \<open>
  A tree in which two clades are named \<open>X\<close>, the state the annotation leaves for it,
  and a fitted tree model for it.
\<close>

definition dup_tree :: clade where
  "dup_tree =
     Clade (Some ''root'')
       [Clade (Some ''A'') [Clade (Some ''X'') []],
        Clade (Some ''B'') [Clade (Some ''X'') []]]"

definition dup_state :: "real annot_state" where
  "dup_state =
     \<lparr>cTiterSub = [[] \<mapsto> 0, [0] \<mapsto> 1, [1] \<mapsto> 0, [0, 0] \<mapsto> 3, [1, 0] \<mapsto> 0],
      nodes = [(Some ''root'', annotation 0 0), (Some ''A'', annotation 1 1),
               (Some ''B'', annotation 0 0), (Some ''X'', annotation 0 0)]\<rparr>"

definition dup_tree_model :: "(unit, real) tree_model" where
  "dup_tree_model =
     \<lparr>compile_titers = (), compile_potencies = (), compile_virus_effects = (),
      dTiter = [[] \<mapsto> 0, [0] \<mapsto> 1, [0, 0] \<mapsto> 2, [1] \<mapsto> 0, [1, 0] \<mapsto> 4],
      cTiter = [[] \<mapsto> 0, [0] \<mapsto> 1, [0, 0] \<mapsto> 3, [1] \<mapsto> 0, [1, 0] \<mapsto> 4]\<rparr>"

text \<open>
  An environment in which two tree files exist, and three command lines: \<^verbatim>\<open>sub\<close>
  without and with \<^verbatim>\<open>--tree\<close>, and \<^verbatim>\<open>tree\<close>.
\<close>

definition example_env :: "(unit, unit, real) env" where
  "example_env =
     \<lparr>load_alignments = (\<lambda>files genes. Inr ()),
      SubstitutionModel = (\<lambda>alignments titers_file. Inr example_model),
      TreeModel = (\<lambda>T titers_file. Inr dup_tree_model),
      Phylo_read = (\<lambda>path. if path = ''tree.nwk'' then Inr example_tree
                            else if path = ''dup.nwk'' then Inr dup_tree
                            else Inl (External ''FileNotFoundError''))\<rparr>"

definition sub_args :: args where
  "sub_args = \<lparr>titers = ''titers.tsv'', alignment = [''ha1.fasta''], gene_names = [''HA1''],
               tree = None, output_path = ''out.json''\<rparr>"

definition sub_tree_args :: args where
  "sub_tree_args = sub_args\<lparr>tree := Some ''tree.nwk''\<rparr>"

definition tree_args :: args where
  "tree_args = sub_args\<lparr>tree := Some ''dup.nwk''\<rparr>"

text \<open>An environment whose model fits are the modelled fit on an empty measurement table.\<close>

definition empty_table_env :: "(unit, unit, real) env" where
  "empty_table_env =
     example_env\<lparr>SubstitutionModel := (\<lambda>alignments titers_file. train (\<lambda>A y. example_model) ([]::real list list) ([]::real list)),
                 TreeModel := (\<lambda>T titers_file. train (\<lambda>A y. dup_tree_model) ([]::real list list) ([]::real list))\<rparr>"



section \<open>The traversal\<close>

lemma find_clades_mem_aux:
  "((q, n) \<in> set (find_clades_at p t)) = (\<exists>r. q = p @ r \<and> subtree_at t r = Some n)"
  "((q, n) \<in> set (find_clades_list p i cs)) =
     (\<exists>k r. k < length cs \<and> q = p @ (i + k) # r \<and> subtree_at (cs ! k) r = Some n)"
proof (induction p t and p i cs arbitrary: q n and q n rule: find_clades_at_find_clades_list.induct)
  case (1 p nm cs)
  show ?case
  proof
    assume "(q, n) \<in> set (find_clades_at p (Clade nm cs))"
    then consider "q = p" "n = Clade nm cs" | "(q, n) \<in> set (find_clades_list p 0 cs)" by auto
    then show "\<exists>r. q = p @ r \<and> subtree_at (Clade nm cs) r = Some n"
    proof cases
      case 1 then show ?thesis by (intro exI[of _ "[]"]) simp
    next
      case 2
      then obtain k r where "k < length cs" "q = p @ k # r" "subtree_at (cs ! k) r = Some n"
        using "1.IH" by auto
      then show ?thesis by (intro exI[of _ "k # r"]) simp
    qed
  next
    assume "\<exists>r. q = p @ r \<and> subtree_at (Clade nm cs) r = Some n"
    then obtain r where r: "q = p @ r" "subtree_at (Clade nm cs) r = Some n" by blast
    show "(q, n) \<in> set (find_clades_at p (Clade nm cs))"
    proof (cases r)
      case Nil
      with r have "q = p" "n = Clade nm cs" by auto
      then show ?thesis by simp
    next
      case (Cons k r')
      with r have "k < length cs" "subtree_at (cs ! k) r' = Some n" by (auto split: if_splits)
      with r Cons have "(q, n) \<in> set (find_clades_list p 0 cs)" using "1.IH" by auto
      then show ?thesis by simp
    qed
  qed
next
  case (2 p i)
  show ?case by simp
next
  case (3 p i c cs)
  show ?case
  proof
    assume "(q, n) \<in> set (find_clades_list p i (c # cs))"
    then consider "(q, n) \<in> set (find_clades_at (p @ [i]) c)" | "(q, n) \<in> set (find_clades_list p (Suc i) cs)"
      by auto
    then show "\<exists>k r. k < length (c # cs) \<and> q = p @ (i + k) # r \<and> subtree_at ((c # cs) ! k) r = Some n"
    proof cases
      case 1
      then obtain r where "q = (p @ [i]) @ r" "subtree_at c r = Some n" using "3.IH"(1) by blast
      then show ?thesis by (intro exI[of _ 0] exI[of _ r]) simp
    next
      case 2
      then obtain k r where "k < length cs" "q = p @ (Suc i + k) # r" "subtree_at (cs ! k) r = Some n"
        using "3.IH"(2) by blast
      then show ?thesis by (intro exI[of _ "Suc k"] exI[of _ r]) simp
    qed
  next
    assume "\<exists>k r. k < length (c # cs) \<and> q = p @ (i + k) # r \<and> subtree_at ((c # cs) ! k) r = Some n"
    then obtain k r where kr: "k < length (c # cs)" "q = p @ (i + k) # r" "subtree_at ((c # cs) ! k) r = Some n"
      by blast
    show "(q, n) \<in> set (find_clades_list p i (c # cs))"
    proof (cases k)
      case 0
      with kr have "(q, n) \<in> set (find_clades_at (p @ [i]) c)" using "3.IH"(1) by auto
      then show ?thesis by simp
    next
      case (Suc k')
      with kr have "(q, n) \<in> set (find_clades_list p (Suc i) cs)" using "3.IH"(2) by auto
      then show ?thesis by simp
    qed
  qed
qed

lemma find_clades_distinct_aux:
  "distinct (map fst (find_clades_at p t))"
  "distinct (map fst (find_clades_list p i cs))"
proof (induction p t and p i cs rule: find_clades_at_find_clades_list.induct)
  case (1 p nm cs)
  have "p \<notin> fst ` set (find_clades_list p 0 cs)"
    by (auto simp: find_clades_mem_aux(2))
  with 1 show ?case by simp
next
  case (2 p i)
  show ?case by simp
next
  case (3 p i c cs)
  have "fst ` set (find_clades_at (p @ [i]) c) \<inter> fst ` set (find_clades_list p (Suc i) cs) = {}"
    by (auto simp: find_clades_mem_aux)
  with 3 show ?case by simp
qed

lemma find_clades_parent_aux:
  "find_clades_at p t = xs @ x # ys \<Longrightarrow> (xs = [] \<and> x = (p, t)) \<or> (\<exists>y \<in> set xs. child_of x y)"
  "find_clades_list p i cs = xs @ x # ys \<Longrightarrow>
     (\<exists>k < length cs. x = (p @ [i + k], cs ! k)) \<or> (\<exists>y \<in> set xs. child_of x y)"
proof (induction p t and p i cs arbitrary: xs x ys and xs x ys rule: find_clades_at_find_clades_list.induct)
  case (1 p nm cs)
  show ?case
  proof (cases xs)
    case Nil
    with "1.prems" show ?thesis by simp
  next
    case (Cons h xs')
    with "1.prems" have h: "h = (p, Clade nm cs)" and l: "find_clades_list p 0 cs = xs' @ x # ys"
      by auto
    from "1.IH"[OF l] show ?thesis
    proof
      assume "\<exists>k<length cs. x = (p @ [0 + k], cs ! k)"
      then have "child_of x h" using h by (auto simp: child_of_def)
      then show ?thesis using Cons by auto
    next
      assume "\<exists>y\<in>set xs'. child_of x y"
      then show ?thesis using Cons by auto
    qed
  qed
next
  case (2 p i)
  then show ?case by simp
next
  case (3 p i c cs)
  from "3.prems" have "find_clades_at (p @ [i]) c @ find_clades_list p (Suc i) cs = xs @ x # ys"
    by simp
  then consider us where "find_clades_at (p @ [i]) c = xs @ x # us"
    | vs where "xs = find_clades_at (p @ [i]) c @ vs" "find_clades_list p (Suc i) cs = vs @ x # ys"
    by (auto simp: append_eq_append_conv2 append_eq_Cons_conv Cons_eq_append_conv)
  then show ?case
  proof cases
    case 1
    from "3.IH"(1)[OF 1] show ?thesis
    proof
      assume "xs = [] \<and> x = (p @ [i], c)"
      then show ?thesis by (intro disjI1 exI[of _ 0]) simp
    next
      assume "\<exists>y\<in>set xs. child_of x y"
      then show ?thesis by blast
    qed
  next
    case 2
    from "3.IH"(2)[OF 2(2)] show ?thesis
    proof
      assume "\<exists>k<length cs. x = (p @ [Suc i + k], cs ! k)"
      then obtain k where "k < length cs" "x = (p @ [Suc i + k], cs ! k)" by blast
      then show ?thesis by (intro disjI1 exI[of _ "Suc k"]) simp
    next
      assume "\<exists>y\<in>set vs. child_of x y"
      then show ?thesis using 2(1) by auto
    qed
  qed
qed

lemma subtree_at_append:
  "subtree_at t (p @ q) = (case subtree_at t p of None \<Rightarrow> None | Some n \<Rightarrow> subtree_at n q)"
  by (induction p arbitrary: t) auto

lemma find_clades_mem: "((q, n) \<in> set (find_clades t)) = (subtree_at t q = Some n)"
  by (simp add: find_clades_def find_clades_mem_aux(1))

lemma find_clades_distinct: "distinct (map fst (find_clades t))"
  by (simp add: find_clades_def find_clades_distinct_aux(1))

lemma find_clades_addrs: "fst ` set (find_clades t) = {a. subtree_at t a \<noteq> None}"
proof (intro set_eqI iffI)
  fix a assume "a \<in> fst ` set (find_clades t)"
  then obtain n where "(a, n) \<in> set (find_clades t)" by auto
  then show "a \<in> {a. subtree_at t a \<noteq> None}" by (simp add: find_clades_mem)
next
  fix a assume "a \<in> {a. subtree_at t a \<noteq> None}"
  then obtain n where "subtree_at t a = Some n" by auto
  then have "(a, n) \<in> set (find_clades t)" by (simp add: find_clades_mem)
  then show "a \<in> fst ` set (find_clades t)" by force
qed

lemma parents_first_find_clades: "parents_first (find_clades t)"
  unfolding parents_first_def find_clades_def
  using find_clades_parent_aux(1)[of "[]" t] by fastforce

lemma find_clades_parent_before:
  assumes "find_clades t = xs @ (q, n) # ys" "q \<noteq> []"
  shows "butlast q \<in> fst ` set xs"
proof -
  have "find_clades t = xs @ (q, n) # ys \<longrightarrow>
        fst (q, n) = [] \<or> (\<exists>y \<in> set xs. child_of (q, n) y)"
    using parents_first_find_clades[of t] unfolding parents_first_def by blast
  with assms obtain y where "y \<in> set xs" "child_of (q, n) y" by auto
  then show ?thesis by (auto simp: child_of_def)
qed

lemma child_addrs_find_clades:
  "insert [] (child_addrs (find_clades t)) = {a. subtree_at t a \<noteq> None}"
proof (intro set_eqI iffI)
  fix a assume "a \<in> insert [] (child_addrs (find_clades t))"
  then consider "a = []" | p n i where "(p, n) \<in> set (find_clades t)" "i < length (clades n)" "a = p @ [i]"
    by (auto simp: child_addrs_def)
  then show "a \<in> {a. subtree_at t a \<noteq> None}"
  proof cases
    case 1 then show ?thesis by simp
  next
    case 2
    then show ?thesis by (simp add: find_clades_mem subtree_at_append)
  qed
next
  fix a assume a: "a \<in> {a. subtree_at t a \<noteq> None}"
  show "a \<in> insert [] (child_addrs (find_clades t))"
  proof (cases a rule: rev_cases)
    case Nil then show ?thesis by simp
  next
    case (snoc p i)
    with a obtain n where n: "subtree_at t p = Some n" and i: "i < length (clades n)"
      by (auto simp: subtree_at_append split: option.splits if_splits)
    then have "(p, n) \<in> set (find_clades t)" by (simp add: find_clades_mem)
    with i snoc show ?thesis by (force simp: child_addrs_def)
  qed
qed

lemma child_visit_mem:
  "i < length (clades n) \<Longrightarrow> (p @ [i], clades n ! i, Some n) \<in> set (child_visits (p, n))"
  by (force simp: child_visits_def child_visits_from_def in_set_enumerate_eq)

lemma annotation_order_child:
  "subtree_at t p = Some n \<Longrightarrow> i < length (clades n) \<Longrightarrow>
   (p @ [i], clades n ! i, Some n) \<in> set (annotation_order t)"
  unfolding annotation_order_def
  using child_visit_mem[of i n p] find_clades_mem[of p n t] by auto

lemma mset_child_visits_aux:
  "mset (map visit_clade (concat (map child_visits (find_clades_at p t)))) + {#(p, t)#}
     = mset (find_clades_at p t)"
  "mset (map visit_clade (concat (map child_visits (find_clades_list p i cs))))
     + mset (map visit_clade (child_visits_from p node i cs))
     = mset (find_clades_list p i cs)"
proof (induction p t and p i cs arbitrary: and node rule: find_clades_at_find_clades_list.induct)
  case (1 p n cs)
  define V where "V = mset (map visit_clade (concat (map child_visits (find_clades_list p 0 cs))))"
  define K where "K = mset (map visit_clade (child_visits_from p (Clade n cs) 0 cs))"
  define R where "R = mset (find_clades_list p 0 cs)"
  from "1.IH"[of "Clade n cs"] have "V + K = R" by (simp only: V_def K_def R_def)
  then have "K + V + {#(p, Clade n cs)#} = add_mset (p, Clade n cs) R" by (simp add: ac_simps)
  moreover have "child_visits (p, Clade n cs) = child_visits_from p (Clade n cs) 0 cs"
    by (simp add: child_visits_def)
  ultimately show ?case by (simp add: V_def K_def R_def)
next
  case (2 p i)
  show ?case by (simp add: child_visits_from_def)
next
  case (3 p i c cs)
  define V1 where "V1 = mset (map visit_clade (concat (map child_visits (find_clades_at (p @ [i]) c))))"
  define V2 where "V2 = mset (map visit_clade (concat (map child_visits (find_clades_list p (Suc i) cs))))"
  define K where "K = mset (map visit_clade (child_visits_from p node (Suc i) cs))"
  define R1 where "R1 = mset (find_clades_at (p @ [i]) c)"
  define R2 where "R2 = mset (find_clades_list p (Suc i) cs)"
  from "3.IH"(1) have a: "V1 + {#(p @ [i], c)#} = R1" by (simp only: V1_def R1_def)
  from "3.IH"(2)[of node] have b: "V2 + K = R2" by (simp only: V2_def K_def R2_def)
  have k: "mset (map visit_clade (child_visits_from p node i (c # cs))) = add_mset (p @ [i], c) K"
    by (simp add: child_visits_from_def K_def visit_clade_def)
  have "(V1 + V2) + add_mset (p @ [i], c) K = (V1 + {#(p @ [i], c)#}) + (V2 + K)"
    by (simp add: ac_simps)
  also have "\<dots> = R1 + R2" by (simp only: a b)
  finally have "(V1 + V2) + add_mset (p @ [i], c) K = R1 + R2" .
  then show ?case unfolding k[symmetric] by (simp add: V1_def V2_def R1_def R2_def)
qed

lemma mset_annotation_order:
  "mset (map visit_clade (annotation_order t)) = mset (find_clades t)"
  using mset_child_visits_aux(1)[of "[]" t]
  by (simp add: annotation_order_def find_clades_def visit_clade_def)

lemma mset_visit_names:
  "mset (map visit_name (annotation_order t)) = mset (map (\<lambda>x. name (snd x)) (find_clades t))"
proof -
  have "map visit_name (annotation_order t)
      = map (\<lambda>x. name (snd x)) (map visit_clade (annotation_order t))"
    by (simp add: visit_name_def visit_clade_def comp_def)
  then show ?thesis
    by (metis mset_annotation_order mset_map)
qed

lemma visit_of_clade:
  "subtree_at t p = Some n \<Longrightarrow> \<exists>par. (p, n, par) \<in> set (annotation_order t)"
proof -
  assume "subtree_at t p = Some n"
  then have "(p, n) \<in> set (find_clades t)" by (simp add: find_clades_mem)
  then have "(p, n) \<in> set (map visit_clade (annotation_order t))"
    using mset_annotation_order[of t] by (metis set_mset_mset)
  then obtain v where v: "v \<in> set (annotation_order t)" "visit_clade v = (p, n)" by auto
  obtain a m par where "v = (a, m, par)" by (cases v)
  with v have "(p, n, par) \<in> set (annotation_order t)" by (simp add: visit_clade_def)
  then show ?thesis by blast
qed

lemma distinct_visit_names:
  "distinct (map (\<lambda>x. name (snd x)) (find_clades t)) \<Longrightarrow>
   distinct (map visit_name (annotation_order t))"
  using mset_visit_names[of t] by (metis mset_eq_imp_distinct_iff)

section \<open>Dictionaries as sequences of writes\<close>

lemma list_all2_witness: "list_all2 P xs ys \<Longrightarrow> x \<in> set xs \<Longrightarrow> \<exists>y \<in> set ys. P x y"
  by (induction rule: list_all2_induct) auto

lemma list_all2_witness_rev: "list_all2 P xs ys \<Longrightarrow> y \<in> set ys \<Longrightarrow> \<exists>x \<in> set xs. P x y"
  by (induction rule: list_all2_induct) auto

lemma list_all2_split:
  assumes "list_all2 P (xs @ x # ys) wl"
  shows "\<exists>wxs e wys. wl = wxs @ e # wys \<and> P x e \<and> list_all2 P ys wys"
proof -
  from assms obtain wxs r where "wl = wxs @ r" "list_all2 P (x # ys) r"
    by (auto simp: list_all2_append1)
  then show ?thesis by (auto simp: list_all2_Cons1)
qed

lemma names_count:
  fixes ns :: "'a list"
  shows "card (set ns) \<le> length ns" "(card (set ns) < length ns) = (\<not> distinct ns)"
proof -
  show le: "card (set ns) \<le> length ns" by (rule card_length)
  show "(card (set ns) < length ns) = (\<not> distinct ns)"
  proof
    assume "card (set ns) < length ns"
    then show "\<not> distinct ns" using distinct_card[of ns] by auto
  next
    assume "\<not> distinct ns"
    then have "card (set ns) \<noteq> length ns" using card_distinct[of ns] by blast
    with le show "card (set ns) < length ns" by simp
  qed
qed

lemma map_le_Some: "cs \<subseteq>\<^sub>m cs' \<Longrightarrow> cs a = Some v \<Longrightarrow> cs' a = Some v"
  by (metis domI map_le_def)

lemma store_all_append: "store_all al (xs @ ys) = store_all (store_all al xs) ys"
  by (simp add: store_all_def)

lemma store_all_Cons: "store_all al (e # wl) = store_all (AList.update (fst e) (snd e) al) wl"
  by (simp add: store_all_def)

lemma map_of_store_all: "map_of (store_all al wl) = map_of (rev wl @ al)"
proof (induction wl arbitrary: al)
  case Nil
  show ?case by (simp add: store_all_def)
next
  case (Cons e wl)
  have "map_of (store_all al (e # wl)) = map_of (rev wl @ AList.update (fst e) (snd e) al)"
    by (simp add: store_all_Cons Cons.IH)
  also have "\<dots> = map_of (rev wl @ e # al)"
    by (cases e) (simp add: map_of_append update_conv' fun_eq_iff)
  finally show ?case by simp
qed

lemma keys_store_all: "fst ` set (store_all al wl) = fst ` set wl \<union> fst ` set al"
proof (induction wl arbitrary: al)
  case Nil
  show ?case by (simp add: store_all_def)
next
  case (Cons e wl)
  show ?case by (simp add: store_all_Cons Cons.IH dom_update Un_commute insert_commute)
qed

lemma distinct_store_all: "distinct (map fst al) \<Longrightarrow> distinct (map fst (store_all al wl))"
  by (induction wl arbitrary: al) (simp_all add: store_all_def distinct_update)

lemma store_all_last:
  assumes "wl = xs @ e # ys" "fst e \<notin> fst ` set ys"
  shows "map_of (store_all al wl) (fst e) = Some (snd e)"
proof -
  have "map_of (rev ys) (fst e) = None"
    using assms(2) by (simp add: map_of_eq_None_iff)
  then show ?thesis
    unfolding map_of_store_all assms(1) by (cases e) (simp add: map_add_def)
qed

lemma store_all_entries: "(k, r) \<in> set (store_all [] wl) \<Longrightarrow> (k, r) \<in> set wl"
proof -
  assume a: "(k, r) \<in> set (store_all [] wl)"
  have "distinct (map fst (store_all [] wl))" by (simp add: distinct_store_all)
  with a have "map_of (store_all [] wl) k = Some r" by simp
  then have "map_of (rev wl) k = Some r" by (simp add: map_of_store_all)
  then show ?thesis using map_of_SomeD by fastforce
qed

lemma length_store_all: "length (store_all [] wl) = card (fst ` set wl)"
proof -
  have "distinct (map fst (store_all [] wl))" by (simp add: distinct_store_all)
  from distinct_card[OF this] have "card (fst ` set (store_all [] wl)) = length (store_all [] wl)"
    by simp
  then show ?thesis by (simp add: keys_store_all)
qed

section \<open>The loops of the annotation\<close>

lemma annotate_children_Inl:
  "annotate_children M p node i cs s = Inl e \<Longrightarrow> cTiterSub s p \<noteq> None \<Longrightarrow>
   \<exists>x y. get_mutations M x y = Inl e"
proof (induction cs arbitrary: i s)
  case Nil
  then show ?case by simp
next
  case (Cons child rest)
  show ?case
  proof (cases "dTiterSub M child node")
    case (Inl e')
    with Cons.prems have "e' = e" by simp
    with Inl show ?thesis by (auto simp: dTiterSub_def split: sum.splits)
  next
    case (Inr d)
    from Cons.prems(2) obtain c where c: "cTiterSub s p = Some c" by blast
    let ?s1 = "\<lparr>cTiterSub = (cTiterSub s)(p @ [i] \<mapsto> c + d),
                nodes = AList.update (name child) (annotation d (c + d)) (nodes s)\<rparr>"
    from Cons.prems(1) Inr c have "annotate_children M p node (Suc i) rest ?s1 = Inl e" by simp
    moreover have "cTiterSub ?s1 p \<noteq> None" using c by simp
    ultimately show ?thesis by (rule Cons.IH)
  qed
qed

lemma annotate_children_Inr:
  "annotate_children M p node i cs s = Inr s' \<Longrightarrow> cTiterSub s p = Some c \<Longrightarrow>
   (\<forall>a. (\<forall>k < length cs. a \<noteq> p @ [i + k]) \<longrightarrow> cTiterSub s' a = cTiterSub s a) \<and>
   (\<exists>wl. nodes s' = store_all (nodes s) wl \<and>
          list_all2 (recorded M (cTiterSub s')) (child_visits_from p node i cs) wl)"
proof (induction cs arbitrary: i s)
  case Nil
  then show ?case by (simp add: store_all_def child_visits_from_def)
next
  case (Cons child rest)
  from Cons.prems obtain d where d: "dTiterSub M child node = Inr d"
    by (cases "dTiterSub M child node") auto
  let ?e = "(name child, annotation d (c + d))"
  let ?s1 = "\<lparr>cTiterSub = (cTiterSub s)(p @ [i] \<mapsto> c + d),
              nodes = AList.update (name child) (annotation d (c + d)) (nodes s)\<rparr>"
  from Cons.prems d have run: "annotate_children M p node (Suc i) rest ?s1 = Inr s'" by simp
  have c1: "cTiterSub ?s1 p = Some c" using Cons.prems(2) by simp
  from Cons.IH[OF run c1] obtain wl where
    frame: "\<forall>a. (\<forall>k < length rest. a \<noteq> p @ [Suc i + k]) \<longrightarrow> cTiterSub s' a = cTiterSub ?s1 a"
    and wl: "nodes s' = store_all (nodes ?s1) wl"
    and rec: "list_all2 (recorded M (cTiterSub s')) (child_visits_from p node (Suc i) rest) wl"
    by blast
  have "\<forall>a. (\<forall>k < length (child # rest). a \<noteq> p @ [i + k]) \<longrightarrow> cTiterSub s' a = cTiterSub s a"
  proof (intro allI impI)
    fix a assume a: "\<forall>k < length (child # rest). a \<noteq> p @ [i + k]"
    then have "a \<noteq> p @ [i]" by force
    moreover have "\<forall>k < length rest. a \<noteq> p @ [Suc i + k]"
    proof (intro allI impI)
      fix k assume "k < length rest"
      then have "Suc k < length (child # rest)" by simp
      with a have "a \<noteq> p @ [i + Suc k]" by blast
      then show "a \<noteq> p @ [Suc i + k]" by simp
    qed
    ultimately show "cTiterSub s' a = cTiterSub s a" using frame by simp
  qed
  moreover have "nodes s' = store_all (nodes s) (?e # wl)"
    using wl by (simp add: store_all_def)
  moreover have "recorded M (cTiterSub s') (p @ [i], child, Some node) ?e"
  proof -
    have "cTiterSub s' p = Some c" using frame c1 by simp
    moreover have "cTiterSub s' (p @ [i]) = Some (c + d)" using frame by simp
    ultimately show ?thesis using d by (simp add: recorded_def)
  qed
  then have "list_all2 (recorded M (cTiterSub s')) (child_visits_from p node i (child # rest)) (?e # wl)"
    using rec by (simp add: child_visits_from_def)
  ultimately show ?case by blast
qed

lemma recorded_mono: "recorded M cs v e \<Longrightarrow> cs \<subseteq>\<^sub>m cs' \<Longrightarrow> recorded M cs' v e"
  unfolding recorded_def
  by (auto split: prod.splits option.splits simp: map_le_Some)

lemma child_visits_from_recorded_dom:
  "list_all2 (recorded M cs) (child_visits_from p node i ch) wl \<Longrightarrow> k < length ch \<Longrightarrow>
   cs (p @ [i + k]) \<noteq> None"
proof (induction ch arbitrary: i wl k)
  case Nil
  then show ?case by simp
next
  case (Cons c ch)
  from Cons.prems(1) obtain e wl' where wl: "wl = e # wl'"
    and e: "recorded M cs (p @ [i], c, Some node) e"
    and rest: "list_all2 (recorded M cs) (child_visits_from p node (Suc i) ch) wl'"
    by (auto simp: child_visits_from_def list_all2_Cons1)
  show ?case
  proof (cases k)
    case 0
    with e show ?thesis by (auto simp: recorded_def)
  next
    case (Suc k')
    with Cons.prems(2) have "k' < length ch" by simp
    from Cons.IH[OF rest this] Suc show ?thesis by simp
  qed
qed

lemma child_addrs_snoc:
  "child_addrs (seen @ [(p, node)]) = child_addrs seen \<union> {p @ [k] | k. k < length (clades node)}"
  by (auto simp: child_addrs_def)

lemma annot_inv_step:
  assumes inv: "annot_inv M t seen s"
    and fresh: "p \<notin> fst ` set seen"
    and par: "p = [] \<or> (\<exists>y \<in> set seen. child_of (p, node) y)"
  shows "case annotate_children M p node 0 (clades node) s of
           Inl e \<Rightarrow> \<exists>x y. get_mutations M x y = Inl e
         | Inr s' \<Rightarrow> annot_inv M t (seen @ [(p, node)]) s'"
proof -
  from inv have dom: "dom (cTiterSub s) = insert [] (child_addrs seen)"
    by (simp add: annot_inv_def)
  from par have "p \<in> insert [] (child_addrs seen)"
    by (auto simp: child_addrs_def child_of_def)
  with dom obtain c where c: "cTiterSub s p = Some c" by blast
  show ?thesis
  proof (cases "annotate_children M p node 0 (clades node) s")
    case (Inl e)
    with annotate_children_Inl[OF Inl] c show ?thesis by simp
  next
    case (Inr s')
    from annotate_children_Inr[OF Inr c] obtain wl1 where
      frame: "\<forall>a. (\<forall>k < length (clades node). a \<noteq> p @ [0 + k]) \<longrightarrow> cTiterSub s' a = cTiterSub s a"
      and wl1: "nodes s' = store_all (nodes s) wl1"
      and rec1: "list_all2 (recorded M (cTiterSub s')) (child_visits_from p node 0 (clades node)) wl1"
      by blast
    from inv obtain wl where wl: "nodes s = store_all [] wl"
      and rec: "list_all2 (recorded M (cTiterSub s)) (([], t, None) # concat (map child_visits seen)) wl"
      by (auto simp: annot_inv_def)
    have new: "p @ [k] \<notin> dom (cTiterSub s)" for k
    proof
      assume "p @ [k] \<in> dom (cTiterSub s)"
      with dom have "p @ [k] \<in> child_addrs seen" by simp
      then obtain y where "y \<in> set seen" "fst y = p" by (auto simp: child_addrs_def)
      with fresh show False by auto
    qed
    have le: "cTiterSub s \<subseteq>\<^sub>m cTiterSub s'"
      unfolding map_le_def
    proof
      fix a assume "a \<in> dom (cTiterSub s)"
      with new have "\<forall>k < length (clades node). a \<noteq> p @ [0 + k]" by auto
      with frame show "cTiterSub s a = cTiterSub s' a" by simp
    qed
    have dom': "dom (cTiterSub s') = insert [] (child_addrs (seen @ [(p, node)]))"
    proof (intro set_eqI iffI)
      fix a assume a: "a \<in> dom (cTiterSub s')"
      show "a \<in> insert [] (child_addrs (seen @ [(p, node)]))"
      proof (cases "\<exists>k < length (clades node). a = p @ [k]")
        case True
        then show ?thesis by (auto simp: child_addrs_snoc)
      next
        case False
        with frame have "cTiterSub s' a = cTiterSub s a" by simp
        with a have "a \<in> dom (cTiterSub s)" by (simp add: dom_def)
        with dom show ?thesis by (auto simp: child_addrs_snoc)
      qed
    next
      fix a assume "a \<in> insert [] (child_addrs (seen @ [(p, node)]))"
      then consider "a \<in> insert [] (child_addrs seen)" | k where "k < length (clades node)" "a = p @ [k]"
        by (auto simp: child_addrs_snoc)
      then show "a \<in> dom (cTiterSub s')"
      proof cases
        case 1
        with dom have "a \<in> dom (cTiterSub s)" by simp
        with le show ?thesis by (auto dest: map_le_Some)
      next
        case 2
        with child_visits_from_recorded_dom[OF rec1 2(1)] show ?thesis by auto
      qed
    qed
    have "list_all2 (recorded M (cTiterSub s')) (([], t, None) # concat (map child_visits seen)) wl"
      using rec le by (auto elim!: list_all2_mono intro: recorded_mono)
    then have "list_all2 (recorded M (cTiterSub s'))
        (([], t, None) # concat (map child_visits (seen @ [(p, node)]))) (wl @ wl1)"
      using rec1 list_all2_appendI[of "recorded M (cTiterSub s')" "([], t, None) # concat (map child_visits seen)" wl
          "child_visits_from p node 0 (clades node)" wl1]
      by (simp add: child_visits_def)
    moreover have "nodes s' = store_all [] (wl @ wl1)"
      using wl wl1 by (simp add: store_all_append)
    ultimately have "annot_inv M t (seen @ [(p, node)]) s'"
      using dom' unfolding annot_inv_def by blast
    with Inr show ?thesis by simp
  qed
qed

lemma annot_inv_loop:
  "annot_inv M t seen s \<Longrightarrow> distinct (map fst (seen @ todo)) \<Longrightarrow> parents_first (seen @ todo) \<Longrightarrow>
   (case annotate_clades M todo s of
      Inl e \<Rightarrow> \<exists>x y. get_mutations M x y = Inl e
    | Inr s' \<Rightarrow> annot_inv M t (seen @ todo) s')"
proof (induction todo arbitrary: seen s)
  case Nil
  then show ?case by simp
next
  case (Cons x todo)
  obtain p node where x: "x = (p, node)" by (cases x)
  from Cons.prems(2) x have fresh: "p \<notin> fst ` set seen" by auto
  from Cons.prems(3) x have par: "p = [] \<or> (\<exists>y \<in> set seen. child_of (p, node) y)"
    unfolding parents_first_def by fastforce
  note step = annot_inv_step[OF Cons.prems(1) fresh par]
  show ?case
  proof (cases "annotate_children M p node 0 (clades node) s")
    case (Inl e)
    with step x show ?thesis by simp
  next
    case (Inr s1)
    with step have inv1: "annot_inv M t (seen @ [(p, node)]) s1" by simp
    have eq: "(seen @ [(p, node)]) @ todo = seen @ x # todo" using x by simp
    from Cons.prems(2,3) have "distinct (map fst ((seen @ [(p, node)]) @ todo))"
      "parents_first ((seen @ [(p, node)]) @ todo)" unfolding eq by simp_all
    from Cons.IH[OF inv1 this] show ?thesis using x Inr unfolding eq by simp
  qed
qed

lemma annot_inv_init: "annot_inv M t [] (init_state t)"
  by (simp add: annot_inv_def init_state_def child_addrs_def recorded_def
      exI[of _ "[(name t, annotation 0 0)]"] store_all_def)

lemma annotate_cases:
  "case annotate M t of
     Inl e \<Rightarrow> \<exists>x y. get_mutations M x y = Inl e
   | Inr s \<Rightarrow> annot_inv M t (find_clades t) s"
proof -
  have "distinct (map fst ([] @ find_clades t))"
    by (simp add: find_clades_def find_clades_distinct_aux)
  moreover have "parents_first ([] @ find_clades t)"
    by (simp add: parents_first_find_clades)
  ultimately show ?thesis
    using annot_inv_loop[OF annot_inv_init, of "find_clades t" M t]
    by (auto simp: annotate_def split: sum.splits)
qed

lemma annotate_Inl: "annotate M t = Inl e \<Longrightarrow> \<exists>x y. get_mutations M x y = Inl e"
  using annotate_cases[of M t] by simp

lemma annotate_Inr:
  assumes "annotate M t = Inr s"
  shows "dom (cTiterSub s) = {a. subtree_at t a \<noteq> None}"
    and "\<exists>wl. nodes s = store_all [] wl \<and>
           list_all2 (recorded M (cTiterSub s)) (annotation_order t) wl"
proof -
  from annotate_cases[of M t] assms have inv: "annot_inv M t (find_clades t) s" by simp
  then show "dom (cTiterSub s) = {a. subtree_at t a \<noteq> None}"
    by (simp add: annot_inv_def child_addrs_find_clades)
  from inv show "\<exists>wl. nodes s = store_all [] wl \<and>
           list_all2 (recorded M (cTiterSub s)) (annotation_order t) wl"
    by (simp add: annot_inv_def annotation_order_def)
qed


lemma annotate_branch:
  assumes "annotate M t = Inr s" "subtree_at t p = Some n" "i < length (clades n)"
  shows "\<exists>c d. cTiterSub s p = Some c \<and> dTiterSub M (clades n ! i) n = Inr d \<and>
               cTiterSub s (p @ [i]) = Some (c + d)"
proof -
  from annotate_Inr(2)[OF assms(1)] obtain wl where
    "list_all2 (recorded M (cTiterSub s)) (annotation_order t) wl" by blast
  from list_all2_witness[OF this annotation_order_child[OF assms(2,3)]]
  obtain e where "recorded M (cTiterSub s) (p @ [i], clades n ! i, Some n) e" by blast
  then show ?thesis by (auto simp: recorded_def)
qed

lemma recorded_keys:
  "list_all2 (recorded M cs) vs wl \<Longrightarrow> map fst wl = map visit_name vs"
  by (induction rule: list_all2_induct) (auto simp: recorded_def visit_name_def)

lemma annotate_nodes_keys:
  assumes "annotate M t = Inr s"
  shows "distinct (map fst (nodes s))"
    and "fst ` set (nodes s) = (\<lambda>x. name (snd x)) ` set (find_clades t)"
    and "length (nodes s) = card (set (map (\<lambda>x. name (snd x)) (find_clades t)))"
proof -
  from annotate_Inr(2)[OF assms] obtain wl where wl: "nodes s = store_all [] wl"
    and rec: "list_all2 (recorded M (cTiterSub s)) (annotation_order t) wl" by blast
  show "distinct (map fst (nodes s))" by (simp add: wl distinct_store_all)
  have "set (map fst wl) = set (map (\<lambda>x. name (snd x)) (find_clades t))"
    unfolding recorded_keys[OF rec] using mset_visit_names[of t] by (metis set_mset_mset)
  then have keys: "fst ` set wl = (\<lambda>x. name (snd x)) ` set (find_clades t)" by simp
  then show "fst ` set (nodes s) = (\<lambda>x. name (snd x)) ` set (find_clades t)"
    by (simp add: wl keys_store_all)
  show "length (nodes s) = card (set (map (\<lambda>x. name (snd x)) (find_clades t)))"
    by (simp add: wl length_store_all keys)
qed

lemma annotate_nodes_last:
  assumes "annotate M t = Inr s" "annotation_order t = xs @ (a, n, par) # ys"
    "name n \<notin> visit_name ` set ys"
  shows "\<exists>c d. cTiterSub s a = Some c \<and>
           (case par of None \<Rightarrow> d = 0 | Some pn \<Rightarrow> dTiterSub M n pn = Inr d) \<and>
           map_of (nodes s) (name n) = Some (annotation d c)"
proof -
  from annotate_Inr(2)[OF assms(1)] obtain wl where wl: "nodes s = store_all [] wl"
    and rec: "list_all2 (recorded M (cTiterSub s)) (xs @ (a, n, par) # ys) wl"
    unfolding assms(2) by blast
  from list_all2_split[OF rec] obtain wxs e wys where split: "wl = wxs @ e # wys"
    and e: "recorded M (cTiterSub s) (a, n, par) e"
    and rest: "list_all2 (recorded M (cTiterSub s)) ys wys" by blast
  from e have key: "fst e = name n" by (simp add: recorded_def)
  have "fst ` set wys = visit_name ` set ys"
    using recorded_keys[OF rest] by (metis set_map)
  with assms(3) key have "fst e \<notin> fst ` set wys" by simp
  from store_all_last[OF split this, of "[]"] wl key
  have m: "map_of (nodes s) (name n) = Some (snd e)" by simp
  show ?thesis
  proof (cases par)
    case None
    with e m show ?thesis by (auto simp: recorded_def)
  next
    case (Some pn)
    with e obtain c d where "dTiterSub M n pn = Inr d" "cTiterSub s a = Some (c + d)"
      "snd e = annotation d (c + d)" by (auto simp: recorded_def)
    with m Some show ?thesis by auto
  qed
qed

lemma annotate_nodes_distinct:
  assumes s: "annotate M t = Inr s"
    and d: "distinct (map (\<lambda>x. name (snd x)) (find_clades t))"
    and v: "(a, n, par) \<in> set (annotation_order t)"
  shows "\<exists>c d. cTiterSub s a = Some c \<and>
           (case par of None \<Rightarrow> d = 0 | Some pn \<Rightarrow> dTiterSub M n pn = Inr d) \<and>
           map_of (nodes s) (name n) = Some (annotation d c)"
proof -
  from v obtain xs ys where split: "annotation_order t = xs @ (a, n, par) # ys"
    by (auto simp: in_set_conv_decomp)
  from distinct_visit_names[OF d] have "distinct (map visit_name (xs @ (a, n, par) # ys))"
    by (simp only: split)
  then have "name n \<notin> visit_name ` set ys" by (auto simp: visit_name_def)
  from annotate_nodes_last[OF s split this] show ?thesis .
qed


lemma annotate_nodes_branch:
  assumes s: "annotate M t = Inr s"
    and d: "distinct (map (\<lambda>x. name (snd x)) (find_clades t))"
    and n: "subtree_at t p = Some n" and i: "i < length (clades n)"
  shows "\<exists>d' c d. map_of (nodes s) (name n) = Some (annotation d' c) \<and>
           dTiterSub M (clades n ! i) n = Inr d \<and>
           map_of (nodes s) (name (clades n ! i)) = Some (annotation d (c + d))"
proof -
  from visit_of_clade[OF n] obtain par where "(p, n, par) \<in> set (annotation_order t)" by blast
  from annotate_nodes_distinct[OF s d this] obtain c d' where
    c: "cTiterSub s p = Some c" and parent: "map_of (nodes s) (name n) = Some (annotation d' c)"
    by blast
  from annotate_nodes_distinct[OF s d annotation_order_child[OF n i]] obtain c2 d2 where
    c2: "cTiterSub s (p @ [i]) = Some c2" and d2: "dTiterSub M (clades n ! i) n = Inr d2"
    and child: "map_of (nodes s) (name (clades n ! i)) = Some (annotation d2 c2)"
    by auto
  from annotate_branch[OF s n i] c c2 d2 have "c2 = c + d2" by auto
  with parent d2 child show ?thesis by blast
qed

lemma annotate_entry_keys:
  assumes s: "annotate M t = Inr s" and kr: "(k, r) \<in> set (nodes s)"
  shows "map fst r = [''dTiterSub'', ''cTiterSub'']"
proof -
  from annotate_Inr(2)[OF s] obtain wl where wl: "nodes s = store_all [] wl"
    and rec: "list_all2 (recorded M (cTiterSub s)) (annotation_order t) wl" by blast
  from kr wl have "(k, r) \<in> set wl" by (simp add: store_all_entries)
  from list_all2_witness_rev[OF rec this] obtain v where
    v: "recorded M (cTiterSub s) v (k, r)" by blast
  obtain a n par where "v = (a, n, par)" by (cases v)
  with v show ?thesis by (cases par) (auto simp: recorded_def annotation_def)
qed

lemma foldl_effects:
  fixes a :: "'v::monoid_add"
  shows "foldl (\<lambda>d gm. d + effect_get eff gm) a ms = a + sum_list (map (effect_get eff) ms)"
  by (induction ms arbitrary: a) (simp_all add: add.assoc)

lemma sum_effects_fitted:
  fixes eff :: "mutation \<rightharpoonup> 'v::monoid_add"
  shows "sum_list (map (effect_get eff) ms) = sum_list (List.map_filter eff ms)"
  by (induction ms) (auto simp: effect_get_def List.map_filter_simps split: option.splits)

lemma dTiterSub_Inr:
  fixes M :: "('c, 'v::monoid_add) substitution_model"
  assumes "dTiterSub M child node = Inr d"
  shows "\<exists>ms. get_mutations M (name child) (name node) = Inr ms \<and>
              d = sum_list (map (effect_get (substitution_effect M)) ms)"
  using assms by (auto simp: dTiterSub_def foldl_effects split: sum.splits)

lemma foldl_effects_nonneg:
  fixes a :: "'v::ordered_comm_monoid_add"
  assumes "\<forall>gm v. eff gm = Some v \<longrightarrow> 0 \<le> v" "0 \<le> a"
  shows "0 \<le> foldl (\<lambda>d gm. d + effect_get eff gm) a ms"
  using assms(2)
proof (induction ms arbitrary: a)
  case Nil
  then show ?case by simp
next
  case (Cons gm ms)
  have "0 \<le> effect_get eff gm"
  proof (cases "eff gm")
    case None
    then show ?thesis by (simp add: effect_get_def)
  next
    case (Some v)
    with assms(1) have "0 \<le> v" by blast
    with Some show ?thesis by (simp add: effect_get_def)
  qed
  with Cons.prems have "0 \<le> a + effect_get eff gm" by (rule add_nonneg_nonneg)
  from Cons.IH[OF this] show ?case by simp
qed

lemma dTiterSub_nonneg:
  fixes M :: "('c, 'v::ordered_comm_monoid_add) substitution_model"
  assumes "\<forall>gm v. substitution_effect M gm = Some v \<longrightarrow> 0 \<le> v" "dTiterSub M child node = Inr d"
  shows "0 \<le> d"
  using assms(2) foldl_effects_nonneg[OF assms(1), of 0]
  by (auto simp: dTiterSub_def split: sum.splits)

lemma annotate_entries_nonneg:
  fixes M :: "('c, 'v::ordered_comm_monoid_add) substitution_model"
  assumes eff: "\<forall>gm v. substitution_effect M gm = Some v \<longrightarrow> 0 \<le> v"
    and s: "annotate M t = Inr s" and kr: "(k, r) \<in> set (nodes s)"
  shows "\<exists>d c. r = annotation d c \<and> 0 \<le> d"
proof -
  from annotate_Inr(2)[OF s] obtain wl where wl: "nodes s = store_all [] wl"
    and rec: "list_all2 (recorded M (cTiterSub s)) (annotation_order t) wl" by blast
  from kr wl have "(k, r) \<in> set wl" by (simp add: store_all_entries)
  from list_all2_witness_rev[OF rec this] obtain v where
    v: "recorded M (cTiterSub s) v (k, r)" by blast
  obtain a n par where "v = (a, n, par)" by (cases v)
  with v show ?thesis
    using dTiterSub_nonneg[OF eff] by (cases par) (auto simp: recorded_def)
qed

lemma annotate_path_mono:
  fixes M :: "('c, 'v::ordered_comm_monoid_add) substitution_model"
  assumes eff: "\<forall>gm v. substitution_effect M gm = Some v \<longrightarrow> 0 \<le> v"
    and s: "annotate M t = Inr s"
  shows "subtree_at t (p @ q) \<noteq> None \<Longrightarrow>
         \<exists>c c'. cTiterSub s p = Some c \<and> cTiterSub s (p @ q) = Some c' \<and> c \<le> c'"
proof (induction q rule: rev_induct)
  case Nil
  then have "p \<in> dom (cTiterSub s)" using annotate_Inr(1)[OF s] by simp
  then show ?case by auto
next
  case (snoc i q)
  from snoc.prems obtain n where n: "subtree_at t (p @ q) = Some n" and i: "i < length (clades n)"
    using subtree_at_append[of t "p @ q" "[i]"] by (auto split: option.splits if_splits)
  from snoc.IH n obtain c c1 where c: "cTiterSub s p = Some c" "cTiterSub s (p @ q) = Some c1" "c \<le> c1"
    by auto
  from annotate_branch[OF s n i] c(2) obtain d where d: "dTiterSub M (clades n ! i) n = Inr d"
    and c2: "cTiterSub s ((p @ q) @ [i]) = Some (c1 + d)" by auto
  from dTiterSub_nonneg[OF eff d] have "c1 \<le> c1 + d" by (simp add: add_increasing2)
  with c(3) have "c \<le> c1 + d" by (rule order_trans)
  with c(1) c2 show ?case by simp
qed

section \<open>The dictionary of the tree model\<close>

lemma tree_nodes_Inr:
  "tree_nodes TM L acc = Inr nd \<Longrightarrow>
   \<exists>wl. nd = store_all acc wl \<and> list_all2 (tree_recorded TM) L wl"
proof (induction L arbitrary: acc)
  case Nil
  then show ?case by (simp add: store_all_def)
next
  case (Cons x L)
  obtain p n where x: "x = (p, n)" by (cases x)
  from Cons.prems x obtain d c where d: "dTiter TM p = Some d" and c: "cTiter TM p = Some c"
    and run: "tree_nodes TM L (AList.update (name n) (tree_annotation d c) acc) = Inr nd"
    by (auto split: option.splits)
  from Cons.IH[OF run] obtain wl where
    wl: "nd = store_all (AList.update (name n) (tree_annotation d c) acc) wl"
    "list_all2 (tree_recorded TM) L wl" by blast
  let ?e = "(name n, tree_annotation d c)"
  have "nd = store_all acc (?e # wl)" using wl(1) by (simp add: store_all_Cons)
  moreover have "list_all2 (tree_recorded TM) (x # L) (?e # wl)"
    using wl(2) x d c by (simp add: tree_recorded_def)
  ultimately show ?case by blast
qed

lemma tree_recorded_keys:
  "list_all2 (tree_recorded TM) L wl \<Longrightarrow> map fst wl = map (\<lambda>x. name (snd x)) L"
  by (induction rule: list_all2_induct) (auto simp: tree_recorded_def)

lemma tree_nodes_keys:
  assumes "tree_nodes TM L [] = Inr nd"
  shows "distinct (map fst nd)"
    and "fst ` set nd = (\<lambda>x. name (snd x)) ` set L"
    and "length nd = card (set (map (\<lambda>x. name (snd x)) L))"
proof -
  from tree_nodes_Inr[OF assms] obtain wl where wl: "nd = store_all [] wl"
    and rec: "list_all2 (tree_recorded TM) L wl" by blast
  show "distinct (map fst nd)" by (simp add: wl distinct_store_all)
  have "set (map fst wl) = set (map (\<lambda>x. name (snd x)) L)"
    by (simp only: tree_recorded_keys[OF rec])
  then have keys: "fst ` set wl = (\<lambda>x. name (snd x)) ` set L" by simp
  then show "fst ` set nd = (\<lambda>x. name (snd x)) ` set L" by (simp add: wl keys_store_all)
  show "length nd = card (set (map (\<lambda>x. name (snd x)) L))"
    by (simp add: wl length_store_all keys)
qed

lemma tree_nodes_last:
  assumes "tree_nodes TM L [] = Inr nd" "L = xs @ (p, n) # ys"
    "name n \<notin> (\<lambda>x. name (snd x)) ` set ys"
  shows "\<exists>d c. dTiter TM p = Some d \<and> cTiter TM p = Some c \<and>
           map_of nd (name n) = Some (tree_annotation d c)"
proof -
  from tree_nodes_Inr[OF assms(1)] obtain wl where wl: "nd = store_all [] wl"
    and rec: "list_all2 (tree_recorded TM) (xs @ (p, n) # ys) wl"
    unfolding assms(2) by blast
  from list_all2_split[OF rec] obtain wxs e wys where split: "wl = wxs @ e # wys"
    and e: "tree_recorded TM (p, n) e"
    and rest: "list_all2 (tree_recorded TM) ys wys" by blast
  from e have key: "fst e = name n" by (simp add: tree_recorded_def)
  have "fst ` set wys = (\<lambda>x. name (snd x)) ` set ys"
    using tree_recorded_keys[OF rest] by (metis set_map)
  with assms(3) key have "fst e \<notin> fst ` set wys" by simp
  from store_all_last[OF split this, of "[]"] wl key
  have "map_of nd (name n) = Some (snd e)" by simp
  with e show ?thesis by (auto simp: tree_recorded_def)
qed


lemma tree_nodes_entry_keys:
  assumes nd: "tree_nodes TM L [] = Inr nd" and kr: "(k, r) \<in> set nd"
  shows "map fst r = [''dTiter'', ''cTiter'']"
proof -
  from tree_nodes_Inr[OF nd] obtain wl where wl: "nd = store_all [] wl"
    and rec: "list_all2 (tree_recorded TM) L wl" by blast
  from kr wl have "(k, r) \<in> set wl" by (simp add: store_all_entries)
  from list_all2_witness_rev[OF rec this] show ?thesis
    by (auto simp: tree_recorded_def tree_annotation_def)
qed

section \<open>The documents and the files\<close>

lemma tree_document_Inr:
  assumes "tree_document E a = Inr doc"
  shows "map fst doc = [''titers'', ''potency'', ''avidity'', ''nodes''] \<and>
         (\<exists>nd. map_of doc ''nodes'' = Some (NodeData nd) \<and>
               (\<forall>k r. (k, r) \<in> set nd \<longrightarrow> map fst r = [''dTiter'', ''cTiter'']))"
proof -
  from assms obtain path T TM nd where
    nd: "tree_nodes TM (find_clades T) [] = Inr nd"
    and doc: "doc = [(''titers'', Compiled (compile_titers TM)),
                     (''potency'', Compiled (compile_potencies TM)),
                     (''avidity'', Compiled (compile_virus_effects TM)),
                     (''nodes'', NodeData nd)]"
    by (auto simp: tree_document_def split: option.splits sum.splits)
  from doc have "map fst doc = [''titers'', ''potency'', ''avidity'', ''nodes'']"
    "map_of doc ''nodes'' = Some (NodeData nd)" by simp_all
  with tree_nodes_entry_keys[OF nd] show ?thesis by blast
qed

lemma substitution_document_no_tree:
  assumes "substitution_document E a = Inr doc" "tree a = None \<or> tree a = Some []"
  shows "map fst doc = [''titers'', ''potency'', ''avidity'', ''substitution'']"
  using assms by (auto simp: substitution_document_def Let_def split: sum.splits)

lemma substitution_document_tree:
  assumes "substitution_document E a = Inr doc" "tree a \<noteq> None \<and> tree a \<noteq> Some []"
  shows "map fst doc = [''titers'', ''potency'', ''avidity'', ''substitution'', ''nodes''] \<and>
         (\<exists>nd. map_of doc ''nodes'' = Some (NodeData nd) \<and>
               (\<forall>k r. (k, r) \<in> set nd \<longrightarrow> map fst r = [''dTiterSub'', ''cTiterSub'']))"
proof -
  from assms obtain TM t s where s: "annotate TM t = Inr s"
    and doc: "doc = AList.update ''nodes'' (NodeData (nodes s))
                [(''titers'', Compiled (compile_titers TM)),
                 (''potency'', Compiled (compile_potencies TM)),
                 (''avidity'', Compiled (compile_virus_effects TM)),
                 (''substitution'', Compiled (compile_substitution_effects TM))]"
    by (auto simp: substitution_document_def Let_def split: sum.splits option.splits if_splits)
  from doc have "map fst doc = [''titers'', ''potency'', ''avidity'', ''substitution'', ''nodes'']"
    "map_of doc ''nodes'' = Some (NodeData (nodes s))" by simp_all
  with annotate_entry_keys[OF s] show ?thesis by blast
qed

lemma run_error_keeps_files:
  "infer_substitution_model_run E a fs = (Inl e, fs') \<Longrightarrow> fs' = fs"
  "infer_tree_model_run E a fs = (Inl e, fs') \<Longrightarrow> fs' = fs"
  by (auto simp: infer_substitution_model_run_def infer_tree_model_run_def split: sum.splits)

section \<open>Evaluation of the concrete inputs\<close>

lemma example_find_clades:
  "find_clades example_tree =
     [([], example_tree), ([0], Clade (Some ''A'') [Clade (Some ''A1'') []]),
      ([0, 0], Clade (Some ''A1'') []), ([1], Clade (Some ''B'') [])]"
  by (simp add: find_clades_def example_tree_def)

lemma example_tree_sel:
  "name example_tree = Some ''root''"
  "clades example_tree = [Clade (Some ''A'') [Clade (Some ''A1'') []], Clade (Some ''B'') []]"
  by (simp_all add: example_tree_def)

lemma example_annotate:
  "annotate example_model example_tree =
     Inr \<lparr>cTiterSub = [[] \<mapsto> 0, [0] \<mapsto> 1, [1] \<mapsto> 0, [0, 0] \<mapsto> 3],
          nodes = [(Some ''root'', annotation 0 0), (Some ''A'', annotation 1 1),
                   (Some ''B'', annotation 0 0), (Some ''A1'', annotation 2 3)]\<rparr>"
  by (simp add: annotate_def example_find_clades init_state_def dTiterSub_def example_model_def
      example_mutations_def effect_get_def example_tree_sel)

lemma example_annotate_state: "annotate example_model example_tree = Inr example_state"
  by (simp add: example_annotate example_state_def)

lemma example_distinct_names: "distinct (map (\<lambda>x. name (snd x)) (find_clades example_tree))"
  by (simp add: example_find_clades example_tree_sel)

lemma example_effects_nonneg:
  "\<forall>gm v. substitution_effect example_model gm = Some v \<longrightarrow> 0 \<le> v"
  by (simp add: example_model_def)

lemma failing_annotate: "annotate failing_model example_tree = Inl (External ''KeyError'')"
  by (simp add: annotate_def example_find_clades init_state_def dTiterSub_def failing_model_def
      example_tree_sel)

lemma dup_tree_sel:
  "name dup_tree = Some ''root''"
  "clades dup_tree = [Clade (Some ''A'') [Clade (Some ''X'') []], Clade (Some ''B'') [Clade (Some ''X'') []]]"
  by (simp_all add: dup_tree_def)

lemma dup_find_clades:
  "find_clades dup_tree =
     [([], dup_tree), ([0], Clade (Some ''A'') [Clade (Some ''X'') []]),
      ([0, 0], Clade (Some ''X'') []), ([1], Clade (Some ''B'') [Clade (Some ''X'') []]),
      ([1, 0], Clade (Some ''X'') [])]"
  by (simp add: find_clades_def dup_tree_def)

lemma dup_annotate: "annotate example_model dup_tree = Inr dup_state"
  by (simp add: annotate_def dup_find_clades init_state_def dTiterSub_def example_model_def
      example_mutations_def effect_get_def dup_tree_sel dup_state_def)

lemma dup_tree_nodes:
  "tree_nodes dup_tree_model (find_clades dup_tree) [] =
     Inr [(Some ''root'', tree_annotation 0 0), (Some ''A'', tree_annotation 1 1),
          (Some ''X'', tree_annotation 4 4), (Some ''B'', tree_annotation 0 0)]"
  by (simp add: dup_find_clades dup_tree_model_def dup_tree_sel)


lemma dup_annotation_order:
  "annotation_order dup_tree =
     [([], dup_tree, None),
      ([0], Clade (Some ''A'') [Clade (Some ''X'') []], Some dup_tree),
      ([1], Clade (Some ''B'') [Clade (Some ''X'') []], Some dup_tree),
      ([0, 0], Clade (Some ''X'') [], Some (Clade (Some ''A'') [Clade (Some ''X'') []]))] @
     ([1, 0], Clade (Some ''X'') [], Some (Clade (Some ''B'') [Clade (Some ''X'') []])) # []"
  by (simp add: annotation_order_def dup_find_clades child_visits_def child_visits_from_def
      dup_tree_sel)

lemma example_substitution_document:
  "substitution_document example_env sub_args =
     Inr [(''titers'', Compiled ()), (''potency'', Compiled ()), (''avidity'', Compiled ()),
          (''substitution'', Compiled ())]"
  by (simp add: substitution_document_def example_env_def sub_args_def example_model_def)

lemma example_substitution_tree_document:
  "substitution_document example_env sub_tree_args =
     Inr [(''titers'', Compiled ()), (''potency'', Compiled ()), (''avidity'', Compiled ()),
          (''substitution'', Compiled ()), (''nodes'', NodeData (nodes example_state))]"
proof -
  have "compile_titers example_model = ()" by simp
  then show ?thesis
    by (simp add: substitution_document_def example_env_def sub_tree_args_def sub_args_def
        example_annotate_state)
qed

lemma example_tree_document:
  "tree_document example_env tree_args =
     Inr [(''titers'', Compiled ()), (''potency'', Compiled ()), (''avidity'', Compiled ()),
          (''nodes'', NodeData [(Some ''root'', tree_annotation 0 0), (Some ''A'', tree_annotation 1 1),
                                (Some ''X'', tree_annotation 4 4), (Some ''B'', tree_annotation 0 0)])]"
  by (simp add: tree_document_def example_env_def tree_args_def sub_args_def dup_tree_nodes)




section \<open>Properties\<close>

subsection \<open>C1: the fitted effects are nonnegative\<close>



subsection \<open>C2: the cumulative value is the parent's plus the branch's\<close>




subsection \<open>C3: the branch value is the sum of the fitted effects\<close>

text \<open>
  C3 (as amended). For every branch the \<^verbatim>\<open>dTiterSub\<close> the code computes is the sum, over
  the mutations \<^verbatim>\<open>get_mutations\<close> returns for the branch, of the fitted effect or \<open>0\<close>
  where none is fitted: the sum of the fitted effects alone. When the names of the tree
  are pairwise distinct this is the \<^verbatim>\<open>dTiterSub\<close> exported under the child's name.
  (Addition is that of an additive monoid here.)
\<close>

theorem dTiterSub_sums_fitted_effects:
  fixes M :: "('c, 'v::monoid_add) substitution_model"
  shows "annotate M t = Inr s \<Longrightarrow> subtree_at t p = Some n \<Longrightarrow> i < length (clades n) \<Longrightarrow>
    \<exists>ms. get_mutations M (name (clades n ! i)) (name n) = Inr ms \<and>
      dTiterSub M (clades n ! i) n = Inr (sum_list (map (effect_get (substitution_effect M)) ms)) \<and>
      sum_list (map (effect_get (substitution_effect M)) ms)
        = sum_list (List.map_filter (substitution_effect M) ms) \<and>
      (distinct (map (\<lambda>x. name (snd x)) (find_clades t)) \<longrightarrow>
         (\<exists>c. map_of (nodes s) (name (clades n ! i))
                = Some (annotation (sum_list (List.map_filter (substitution_effect M) ms)) c)))"
proof -
  assume s: "annotate M t = Inr s" and n: "subtree_at t p = Some n" and i: "i < length (clades n)"
  from annotate_branch[OF s n i] obtain d where d: "dTiterSub M (clades n ! i) n = Inr d" by blast
  from dTiterSub_Inr[OF d] obtain ms where
    ms: "get_mutations M (name (clades n ! i)) (name n) = Inr ms"
    and sum: "d = sum_list (map (effect_get (substitution_effect M)) ms)" by blast
  note fitted = sum_effects_fitted[of "substitution_effect M" ms]
  have "distinct (map (\<lambda>x. name (snd x)) (find_clades t)) \<longrightarrow>
         (\<exists>c. map_of (nodes s) (name (clades n ! i))
                = Some (annotation (sum_list (List.map_filter (substitution_effect M) ms)) c))"
  proof
    assume dn: "distinct (map (\<lambda>x. name (snd x)) (find_clades t))"
    from annotate_nodes_branch[OF s dn n i] d sum fitted
    show "\<exists>c. map_of (nodes s) (name (clades n ! i))
                = Some (annotation (sum_list (List.map_filter (substitution_effect M) ms)) c)"
      by auto
  qed
  with ms d sum fitted show ?thesis by auto
qed

theorem dTiterSub_sums_fitted_effects_witness:
  "annotate example_model example_tree = Inr example_state \<and>
   subtree_at example_tree [0] = Some (Clade (Some ''A'') [Clade (Some ''A1'') []]) \<and>
   0 < length (clades (Clade (Some ''A'') [Clade (Some ''A1'') []])) \<and>
   distinct (map (\<lambda>x. name (snd x)) (find_clades example_tree)) \<and>
   (\<exists>ms. get_mutations example_model (Some ''A1'') (Some ''A'') = Inr ms \<and>
      (\<exists>c. map_of (nodes example_state) (Some ''A1'')
            = Some (annotation (sum_list (List.map_filter (substitution_effect example_model) ms)) c)))"
proof -
  have sub: "subtree_at example_tree [0] = Some (Clade (Some ''A'') [Clade (Some ''A1'') []])"
    by (simp add: example_tree_def)
  have i: "0 < length (clades (Clade (Some ''A'') [Clade (Some ''A1'') []]))" by simp
  from dTiterSub_sums_fitted_effects[OF example_annotate_state sub i] example_distinct_names
  have "\<exists>ms. get_mutations example_model (Some ''A1'') (Some ''A'') = Inr ms \<and>
      (\<exists>c. map_of (nodes example_state) (Some ''A1'')
            = Some (annotation (sum_list (List.map_filter (substitution_effect example_model) ms)) c))"
    by simp blast
  with example_annotate_state sub i example_distinct_names show ?thesis by blast
qed

text \<open>
  C3, the claim as stated fails when names repeat. In \<^const>\<open>dup_tree\<close> the branch from
  \<open>A\<close> to its child \<open>X\<close> has one mutation, with the fitted effect \<open>2\<close>; the
  \<^verbatim>\<open>dTiterSub\<close> exported under \<open>X\<close> is \<open>0\<close>, written for the other clade named \<open>X\<close>.
\<close>

theorem exported_dTiterSub_counterexample:
  "annotate example_model dup_tree = Inr dup_state \<and>
   subtree_at dup_tree [0] = Some (Clade (Some ''A'') [Clade (Some ''X'') []]) \<and>
   clades (Clade (Some ''A'') [Clade (Some ''X'') []]) ! 0 = Clade (Some ''X'') [] \<and>
   get_mutations example_model (Some ''X'') (Some ''A'') = Inr [(''HA1'', ''K135T'')] \<and>
   substitution_effect example_model (''HA1'', ''K135T'') = Some 2 \<and>
   map_of (nodes dup_state) (Some ''X'') = Some (annotation 0 0) \<and>
   map_of (annotation 0 (0::real)) ''dTiterSub'' = Some 0 \<and>
   (0::real) \<noteq> sum_list [2]"
proof -
  have "subtree_at dup_tree [0] = Some (Clade (Some ''A'') [Clade (Some ''X'') []])"
    by (simp add: dup_tree_def)
  moreover have "clades (Clade (Some ''A'') [Clade (Some ''X'') []]) ! 0 = Clade (Some ''X'') []"
    by simp
  moreover have "get_mutations example_model (Some ''X'') (Some ''A'') = Inr [(''HA1'', ''K135T'')]"
    "substitution_effect example_model (''HA1'', ''K135T'') = Some 2"
    by (simp_all add: example_model_def example_mutations_def)
  moreover have "map_of (nodes dup_state) (Some ''X'') = Some (annotation 0 0)"
    by (simp add: dup_state_def)
  moreover have "map_of (annotation 0 (0::real)) ''dTiterSub'' = Some 0"
    by (simp add: annotation_def)
  moreover have "(0::real) \<noteq> sum_list [2]" by simp
  ultimately show ?thesis using dup_annotate by blast
qed

subsection \<open>C4: the keys of the documents\<close>

text \<open>
  C4. The document of the tree model has exactly the keys \<^verbatim>\<open>titers\<close>,
  \<^verbatim>\<open>potency\<close>, \<^verbatim>\<open>avidity\<close> and \<^verbatim>\<open>nodes\<close>, with \<^verbatim>\<open>dTiter\<close> and \<^verbatim>\<open>cTiter\<close>
  for every node name. The document of the substitution model has the keys
  \<^verbatim>\<open>titers\<close>, \<^verbatim>\<open>potency\<close>, \<^verbatim>\<open>avidity\<close> and \<^verbatim>\<open>substitution\<close>, and the key
  \<^verbatim>\<open>nodes\<close>, with \<^verbatim>\<open>dTiterSub\<close> and \<^verbatim>\<open>cTiterSub\<close> for every node name, exactly
  when a tree was supplied (\<^verbatim>\<open>if args.tree:\<close>, so a tree path that is given and not
  empty). A command that succeeds writes this document, and only it, to the output
  path.
\<close>

theorem document_keys:
  "(\<forall>doc. tree_document E a = Inr doc \<longrightarrow>
      map fst doc = [''titers'', ''potency'', ''avidity'', ''nodes''] \<and>
      (\<exists>nd. map_of doc ''nodes'' = Some (NodeData nd) \<and>
            (\<forall>k r. (k, r) \<in> set nd \<longrightarrow> map fst r = [''dTiter'', ''cTiter'']))) \<and>
   (\<forall>doc. substitution_document E a = Inr doc \<longrightarrow>
      (tree a = None \<or> tree a = Some [] \<longrightarrow>
         map fst doc = [''titers'', ''potency'', ''avidity'', ''substitution'']) \<and>
      (tree a \<noteq> None \<and> tree a \<noteq> Some [] \<longrightarrow>
         map fst doc = [''titers'', ''potency'', ''avidity'', ''substitution'', ''nodes''] \<and>
         (\<exists>nd. map_of doc ''nodes'' = Some (NodeData nd) \<and>
               (\<forall>k r. (k, r) \<in> set nd \<longrightarrow> map fst r = [''dTiterSub'', ''cTiterSub''])))) \<and>
   (\<forall>fs fs'. infer_tree_model_run E a fs = (Inr (), fs') \<longrightarrow>
      (\<exists>doc. tree_document E a = Inr doc \<and> fs' = fs(output_path a \<mapsto> doc))) \<and>
   (\<forall>fs fs'. infer_substitution_model_run E a fs = (Inr (), fs') \<longrightarrow>
      (\<exists>doc. substitution_document E a = Inr doc \<and> fs' = fs(output_path a \<mapsto> doc)))"
proof (intro conjI allI impI)
  fix doc assume "tree_document E a = Inr doc"
  from tree_document_Inr[OF this]
  show "map fst doc = [''titers'', ''potency'', ''avidity'', ''nodes'']"
    "\<exists>nd. map_of doc ''nodes'' = Some (NodeData nd) \<and>
            (\<forall>k r. (k, r) \<in> set nd \<longrightarrow> map fst r = [''dTiter'', ''cTiter''])"
    by blast+
next
  fix doc assume "substitution_document E a = Inr doc" "tree a = None \<or> tree a = Some []"
  then show "map fst doc = [''titers'', ''potency'', ''avidity'', ''substitution'']"
    by (rule substitution_document_no_tree)
next
  fix doc assume "substitution_document E a = Inr doc" "tree a \<noteq> None \<and> tree a \<noteq> Some []"
  from substitution_document_tree[OF this]
  show "map fst doc = [''titers'', ''potency'', ''avidity'', ''substitution'', ''nodes'']"
    "\<exists>nd. map_of doc ''nodes'' = Some (NodeData nd) \<and>
            (\<forall>k r. (k, r) \<in> set nd \<longrightarrow> map fst r = [''dTiterSub'', ''cTiterSub''])"
    by blast+
next
  fix fs fs' assume "infer_tree_model_run E a fs = (Inr (), fs')"
  then show "\<exists>doc. tree_document E a = Inr doc \<and> fs' = fs(output_path a \<mapsto> doc)"
    by (auto simp: infer_tree_model_run_def write_json_def split: sum.splits)
next
  fix fs fs' assume "infer_substitution_model_run E a fs = (Inr (), fs')"
  then show "\<exists>doc. substitution_document E a = Inr doc \<and> fs' = fs(output_path a \<mapsto> doc)"
    by (auto simp: infer_substitution_model_run_def write_json_def split: sum.splits)
qed

theorem document_keys_witness:
  "tree_document example_env tree_args =
     Inr [(''titers'', Compiled ()), (''potency'', Compiled ()), (''avidity'', Compiled ()),
          (''nodes'', NodeData [(Some ''root'', tree_annotation 0 0), (Some ''A'', tree_annotation 1 1),
                                (Some ''X'', tree_annotation 4 4), (Some ''B'', tree_annotation 0 0)])] \<and>
   tree sub_args = None \<and>
   substitution_document example_env sub_args =
     Inr [(''titers'', Compiled ()), (''potency'', Compiled ()), (''avidity'', Compiled ()),
          (''substitution'', Compiled ())] \<and>
   tree sub_tree_args = Some ''tree.nwk'' \<and>
   substitution_document example_env sub_tree_args =
     Inr [(''titers'', Compiled ()), (''potency'', Compiled ()), (''avidity'', Compiled ()),
          (''substitution'', Compiled ()), (''nodes'', NodeData (nodes example_state))] \<and>
   (\<exists>nd. map_of [(''titers'', Compiled ()), (''potency'', Compiled ()), (''avidity'', Compiled ()),
                  (''substitution'', Compiled ()), (''nodes'', NodeData (nodes example_state))] ''nodes''
           = Some (NodeData nd)) \<and>
   infer_substitution_model_run example_env sub_args Map.empty =
     (Inr (), [''out.json'' \<mapsto> [(''titers'', Compiled ()), (''potency'', Compiled ()),
                                   (''avidity'', Compiled ()), (''substitution'', Compiled ())]])"
proof -
  have t0: "tree sub_args = None" by (simp add: sub_args_def)
  have t1: "tree sub_tree_args = Some ''tree.nwk''" by (simp add: sub_tree_args_def)
  then have t1': "tree sub_tree_args \<noteq> None \<and> tree sub_tree_args \<noteq> Some []" by simp
  from document_keys[of example_env sub_tree_args] example_substitution_tree_document t1'
  have nodes: "\<exists>nd. map_of [(''titers'', Compiled ()), (''potency'', Compiled ()), (''avidity'', Compiled ()),
                  (''substitution'', Compiled ()), (''nodes'', NodeData (nodes example_state))] ''nodes''
           = Some (NodeData nd)"
    by blast
  have run: "infer_substitution_model_run example_env sub_args Map.empty =
     (Inr (), [''out.json'' \<mapsto> [(''titers'', Compiled ()), (''potency'', Compiled ()),
                                   (''avidity'', Compiled ()), (''substitution'', Compiled ())]])"
  proof -
    have "output_path sub_args = ''out.json''" by (simp add: sub_args_def)
    then show ?thesis
      by (simp add: infer_substitution_model_run_def example_substitution_document write_json_def)
  qed
  from example_tree_document t0 example_substitution_document t1
    example_substitution_tree_document nodes run
  show ?thesis by blast
qed

subsection \<open>C5: every clade once, parents first\<close>

text \<open>
  C5. The annotator visits every node of the tree exactly once, parents before children:
  \<^verbatim>\<open>find_clades\<close> lists every position of the tree once, and the parent of every
  listed non-root clade stands earlier in the list. So \<^verbatim>\<open>node.cTiterSub\<close> is set
  whenever it is read: the annotation can only fail with an exception raised by
  \<^verbatim>\<open>get_mutations\<close>. When it succeeds, every clade carries \<^verbatim>\<open>cTiterSub\<close>, and
  every child \<open>i\<close> of a node got the node's own value \<open>c\<close> plus the child's branch
  value, whatever its siblings got.
\<close>

theorem annotate_parent_before_children:
  "distinct (map fst (find_clades t)) \<and>
   fst ` set (find_clades t) = {a. subtree_at t a \<noteq> None} \<and>
   (\<forall>xs q n ys. find_clades t = xs @ (q, n) # ys \<and> q \<noteq> [] \<longrightarrow> butlast q \<in> fst ` set xs) \<and>
   (\<forall>e. annotate M t = Inl e \<longrightarrow> (\<exists>x y. get_mutations M x y = Inl e)) \<and>
   (\<forall>s. annotate M t = Inr s \<longrightarrow>
      dom (cTiterSub s) = {a. subtree_at t a \<noteq> None} \<and>
      (\<forall>p n i. subtree_at t p = Some n \<and> i < length (clades n) \<longrightarrow>
         (\<exists>c d. cTiterSub s p = Some c \<and> dTiterSub M (clades n ! i) n = Inr d \<and>
                cTiterSub s (p @ [i]) = Some (c + d))))"
proof (intro conjI allI impI)
  show "distinct (map fst (find_clades t))" by (rule find_clades_distinct)
  show "fst ` set (find_clades t) = {a. subtree_at t a \<noteq> None}" by (rule find_clades_addrs)
next
  fix xs q n ys assume "find_clades t = xs @ (q, n) # ys \<and> q \<noteq> []"
  then show "butlast q \<in> fst ` set xs" using find_clades_parent_before by blast
next
  fix e assume "annotate M t = Inl e"
  then show "\<exists>x y. get_mutations M x y = Inl e" by (rule annotate_Inl)
next
  fix s assume "annotate M t = Inr s"
  then show "dom (cTiterSub s) = {a. subtree_at t a \<noteq> None}" by (rule annotate_Inr(1))
next
  fix s p n i assume "annotate M t = Inr s" "subtree_at t p = Some n \<and> i < length (clades n)"
  then show "\<exists>c d. cTiterSub s p = Some c \<and> dTiterSub M (clades n ! i) n = Inr d \<and>
                cTiterSub s (p @ [i]) = Some (c + d)"
    using annotate_branch by blast
qed

theorem annotate_parent_before_children_witness:
  "find_clades example_tree =
     [([], example_tree), ([0], Clade (Some ''A'') [Clade (Some ''A1'') []])] @
     ([0, 0], Clade (Some ''A1'') []) # [([1], Clade (Some ''B'') [])] \<and>
   butlast [0, 0::nat] \<in> fst ` set [([]::addr, example_tree), ([0], Clade (Some ''A'') [Clade (Some ''A1'') []])] \<and>
   annotate failing_model example_tree = Inl (External ''KeyError'') \<and>
   (\<exists>x y. get_mutations failing_model x y = Inl (External ''KeyError'')) \<and>
   annotate example_model example_tree =
     Inr \<lparr>cTiterSub = [[] \<mapsto> 0, [0] \<mapsto> 1, [1] \<mapsto> 0, [0, 0] \<mapsto> 3],
          nodes = [(Some ''root'', annotation 0 0), (Some ''A'', annotation 1 1),
                   (Some ''B'', annotation 0 0), (Some ''A1'', annotation 2 3)]\<rparr> \<and>
   subtree_at example_tree [] = Some example_tree \<and> 1 < length (clades example_tree) \<and>
   (\<exists>c d. [[] \<mapsto> 0, [0] \<mapsto> 1, [1] \<mapsto> 0, [0, 0] \<mapsto> (3::real)] [] = Some c \<and>
          dTiterSub example_model (clades example_tree ! 1) example_tree = Inr d \<and>
          [[] \<mapsto> 0, [0] \<mapsto> 1, [1] \<mapsto> 0, [0, 0] \<mapsto> (3::real)] ([] @ [1]) = Some (c + d))"
proof -
  note main = annotate_parent_before_children
  have fc: "find_clades example_tree =
     [([], example_tree), ([0], Clade (Some ''A'') [Clade (Some ''A1'') []])] @
     ([0, 0], Clade (Some ''A1'') []) # [([1], Clade (Some ''B'') [])]"
    by (simp add: example_find_clades)
  have "find_clades example_tree =
     [([], example_tree), ([0], Clade (Some ''A'') [Clade (Some ''A1'') []])] @
     ([0, 0], Clade (Some ''A1'') []) # [([1], Clade (Some ''B'') [])] \<and> [0, 0::nat] \<noteq> []"
    using fc by simp
  moreover have "\<forall>xs q n ys. find_clades example_tree = xs @ (q, n) # ys \<and> q \<noteq> [] \<longrightarrow>
      butlast q \<in> fst ` set xs"
    using main[of example_tree example_model] by (elim conjE)
  ultimately have order: "butlast [0, 0::nat] \<in> fst ` set [([]::addr, example_tree), ([0], Clade (Some ''A'') [Clade (Some ''A1'') []])]"
    by (elim allE impE) assumption+
  have "\<forall>e. annotate failing_model example_tree = Inl e \<longrightarrow>
      (\<exists>x y. get_mutations failing_model x y = Inl e)"
    using main[of example_tree failing_model] by (elim conjE)
  with failing_annotate
  have err: "\<exists>x y. get_mutations failing_model x y = Inl (External ''KeyError'')" by blast
  have sub: "subtree_at example_tree [] = Some example_tree \<and> 1 < length (clades example_tree)"
    by (simp add: example_tree_sel)
  moreover have "\<forall>s. annotate example_model example_tree = Inr s \<longrightarrow>
      (\<forall>p n i. subtree_at example_tree p = Some n \<and> i < length (clades n) \<longrightarrow>
         (\<exists>c d. cTiterSub s p = Some c \<and> dTiterSub example_model (clades n ! i) n = Inr d \<and>
                cTiterSub s (p @ [i]) = Some (c + d)))"
    using main[of example_tree example_model] by (elim conjE) blast
  ultimately have "\<exists>c d. cTiterSub \<lparr>cTiterSub = [[] \<mapsto> 0, [0] \<mapsto> 1, [1] \<mapsto> 0, [0, 0] \<mapsto> (3::real)],
          nodes = [(Some ''root'', annotation 0 0), (Some ''A'', annotation 1 1),
                   (Some ''B'', annotation 0 0), (Some ''A1'', annotation 2 3)]\<rparr> [] = Some c \<and>
          dTiterSub example_model (clades example_tree ! 1) example_tree = Inr d \<and>
          cTiterSub \<lparr>cTiterSub = [[] \<mapsto> 0, [0] \<mapsto> 1, [1] \<mapsto> 0, [0, 0] \<mapsto> (3::real)],
          nodes = [(Some ''root'', annotation 0 0), (Some ''A'', annotation 1 1),
                   (Some ''B'', annotation 0 0), (Some ''A1'', annotation 2 3)]\<rparr> ([] @ [1]) = Some (c + d)"
    using example_annotate by blast
  then have branch: "\<exists>c d. [[] \<mapsto> 0, [0] \<mapsto> 1, [1] \<mapsto> 0, [0, 0] \<mapsto> (3::real)] [] = Some c \<and>
          dTiterSub example_model (clades example_tree ! 1) example_tree = Inr d \<and>
          [[] \<mapsto> 0, [0] \<mapsto> 1, [1] \<mapsto> 0, [0, 0] \<mapsto> (3::real)] ([] @ [1]) = Some (c + d)"
    by simp
  from fc order failing_annotate err example_annotate sub branch show ?thesis by blast
qed

subsection \<open>C7: no measurement, no document\<close>

text \<open>
  C7. With no usable measurement the (modelled) fit fails with the insufficient-data
  error; the command then ends with that error and the files are as they were: the
  document is written last, so no error of a command leaves a document behind.
\<close>

theorem insufficient_data_writes_nothing:
  "(\<forall>e fs'. infer_substitution_model_run E a fs = (Inl e, fs') \<longrightarrow> fs' = fs) \<and>
   (\<forall>e fs'. infer_tree_model_run E a fs = (Inl e, fs') \<longrightarrow> fs' = fs) \<and>
   (load_alignments E (alignment a) (gene_names a) = Inr al \<and>
    SubstitutionModel E al (titers a) = train solve [] y \<longrightarrow>
      infer_substitution_model_run E a fs = (Inl InsufficientData, fs)) \<and>
   (tree a = Some path \<and> Phylo_read E path = Inr T \<and>
    TreeModel E T (titers a) = train solve' [] y' \<longrightarrow>
      infer_tree_model_run E a fs = (Inl InsufficientData, fs))"
proof (intro conjI allI impI)
  fix e fs' assume "infer_substitution_model_run E a fs = (Inl e, fs')"
  then show "fs' = fs" by (rule run_error_keeps_files(1))
next
  fix e fs' assume "infer_tree_model_run E a fs = (Inl e, fs')"
  then show "fs' = fs" by (rule run_error_keeps_files(2))
next
  assume "load_alignments E (alignment a) (gene_names a) = Inr al \<and>
    SubstitutionModel E al (titers a) = train solve [] y"
  then show "infer_substitution_model_run E a fs = (Inl InsufficientData, fs)"
    by (simp add: infer_substitution_model_run_def substitution_document_def train_def)
next
  assume "tree a = Some path \<and> Phylo_read E path = Inr T \<and>
    TreeModel E T (titers a) = train solve' [] y'"
  then show "infer_tree_model_run E a fs = (Inl InsufficientData, fs)"
    by (simp add: infer_tree_model_run_def tree_document_def train_def)
qed

theorem insufficient_data_writes_nothing_witness:
  "load_alignments empty_table_env (alignment sub_args) (gene_names sub_args) = Inr () \<and>
   SubstitutionModel empty_table_env () (titers sub_args) = train (\<lambda>A y. example_model) ([]::real list list) ([]::real list) \<and>
   infer_substitution_model_run empty_table_env sub_args Map.empty = (Inl InsufficientData, Map.empty) \<and>
   tree tree_args = Some ''dup.nwk'' \<and> Phylo_read empty_table_env ''dup.nwk'' = Inr dup_tree \<and>
   TreeModel empty_table_env dup_tree (titers tree_args) = train (\<lambda>A y. dup_tree_model) ([]::real list list) ([]::real list) \<and>
   infer_tree_model_run empty_table_env tree_args Map.empty = (Inl InsufficientData, Map.empty)"
proof -
  have s: "load_alignments empty_table_env (alignment sub_args) (gene_names sub_args) = Inr () \<and>
      SubstitutionModel empty_table_env () (titers sub_args) = train (\<lambda>A y. example_model) ([]::real list list) ([]::real list)"
    by (simp add: empty_table_env_def example_env_def)
  have t: "tree tree_args = Some ''dup.nwk'' \<and> Phylo_read empty_table_env ''dup.nwk'' = Inr dup_tree \<and>
      TreeModel empty_table_env dup_tree (titers tree_args) = train (\<lambda>A y. dup_tree_model) ([]::real list list) ([]::real list)"
    by (simp add: empty_table_env_def example_env_def tree_args_def)
  from insufficient_data_writes_nothing[of empty_table_env sub_args Map.empty "()"
      "\<lambda>A y. example_model" "[]::real list" "''dup.nwk''" dup_tree "\<lambda>A y. dup_tree_model" "[]::real list"] s
  have "infer_substitution_model_run empty_table_env sub_args Map.empty = (Inl InsufficientData, Map.empty)"
    by blast
  moreover
  from insufficient_data_writes_nothing[of empty_table_env tree_args Map.empty "()"
      "\<lambda>A y. example_model" "[]::real list" "''dup.nwk''" dup_tree "\<lambda>A y. dup_tree_model" "[]::real list"] t
  have "infer_tree_model_run empty_table_env tree_args Map.empty = (Inl InsufficientData, Map.empty)"
    by blast
  ultimately show ?thesis using s t by blast
qed

subsection \<open>C8: what the annotation writes\<close>




subsection \<open>C9: nonnegative effects, nondecreasing cumulative values\<close>

text \<open>
  C9. If every fitted substitution effect is nonnegative, every \<^verbatim>\<open>dTiterSub\<close> in the
  exported \<^verbatim>\<open>nodes\<close> dictionary is nonnegative, and \<^verbatim>\<open>cTiterSub\<close> does not
  decrease from a clade to any of its descendants, so along every path from the root
  to a leaf.
\<close>

theorem nonneg_effects_monotone:
  fixes M :: "('c, 'v::ordered_comm_monoid_add) substitution_model"
  shows "(\<forall>gm v. substitution_effect M gm = Some v \<longrightarrow> 0 \<le> v) \<Longrightarrow> annotate M t = Inr s \<Longrightarrow>
    (\<forall>k r. (k, r) \<in> set (nodes s) \<longrightarrow> (\<exists>d. map_of r ''dTiterSub'' = Some d \<and> 0 \<le> d)) \<and>
    (\<forall>p q. subtree_at t (p @ q) \<noteq> None \<longrightarrow>
       (\<exists>c c'. cTiterSub s p = Some c \<and> cTiterSub s (p @ q) = Some c' \<and> c \<le> c'))"
proof (intro conjI allI impI)
  assume eff: "\<forall>gm v. substitution_effect M gm = Some v \<longrightarrow> 0 \<le> v" and s: "annotate M t = Inr s"
  {
    fix k r assume "(k, r) \<in> set (nodes s)"
    from annotate_entries_nonneg[OF eff s this]
    show "\<exists>d. map_of r ''dTiterSub'' = Some d \<and> 0 \<le> d" by (auto simp: annotation_def)
  }
  fix p q assume "subtree_at t (p @ q) \<noteq> None"
  then show "\<exists>c c'. cTiterSub s p = Some c \<and> cTiterSub s (p @ q) = Some c' \<and> c \<le> c'"
    by (rule annotate_path_mono[OF eff s])
qed

theorem nonneg_effects_monotone_witness:
  "\<not> (\<exists>gm v. substitution_effect example_model gm = Some v \<and> v < 0) \<and>
   annotate example_model example_tree = Inr example_state \<and>
   (Some ''A1'', annotation 2 3) \<in> set (nodes example_state) \<and>
   (\<exists>d. map_of (annotation 2 (3::real)) ''dTiterSub'' = Some d \<and> 0 \<le> d) \<and>
   subtree_at example_tree ([0] @ [0]) \<noteq> None \<and>
   (\<exists>c c'. cTiterSub example_state [0] = Some c \<and> cTiterSub example_state ([0] @ [0]) = Some c' \<and> c \<le> c')"
proof -
  note main = nonneg_effects_monotone[OF example_effects_nonneg example_annotate_state]
  have e: "(Some ''A1'', annotation 2 3) \<in> set (nodes example_state)"
    by (simp add: example_state_def)
  with main have d: "\<exists>d. map_of (annotation 2 (3::real)) ''dTiterSub'' = Some d \<and> 0 \<le> d"
    by blast
  have sub: "subtree_at example_tree ([0] @ [0]) \<noteq> None" by (simp add: example_tree_def)
  with main have "\<exists>c c'. cTiterSub example_state [0] = Some c \<and>
      cTiterSub example_state ([0] @ [0]) = Some c' \<and> c \<le> c'"
    by blast
  moreover have "\<not> (\<exists>gm v. substitution_effect example_model gm = Some v \<and> v < 0)"
    using example_effects_nonneg by (auto simp: not_less)
  ultimately show ?thesis using example_annotate_state e d sub by blast
qed

subsection \<open>C10: the dictionary is keyed by name\<close>

text \<open>
  C10. The \<^verbatim>\<open>nodes\<close> dictionary is keyed by the clade's name, in both commands: its
  keys are the names that occur in the tree, each once, so it never has more entries
  than the tree has clades and has fewer exactly when two clades share a name (two
  unnamed clades share the name \<^verbatim>\<open>None\<close>). The entry under a name is the one written
  for the last clade of that name in the order of writing: \<^const>\<open>annotation_order\<close> for
  the substitution model, \<^verbatim>\<open>find_clades\<close> for the tree model.
\<close>

theorem nodes_keyed_by_name:
  "(\<forall>s. annotate M t = Inr s \<longrightarrow>
      distinct (map fst (nodes s)) \<and>
      fst ` set (nodes s) = (\<lambda>x. name (snd x)) ` set (find_clades t) \<and>
      length (nodes s) \<le> length (find_clades t) \<and>
      (length (nodes s) < length (find_clades t)) =
        (\<not> distinct (map (\<lambda>x. name (snd x)) (find_clades t))) \<and>
      (\<forall>xs a n par ys.
         annotation_order t = xs @ (a, n, par) # ys \<and> name n \<notin> visit_name ` set ys \<longrightarrow>
         (\<exists>c d. cTiterSub s a = Some c \<and>
                (case par of None \<Rightarrow> d = 0 | Some pn \<Rightarrow> dTiterSub M n pn = Inr d) \<and>
                map_of (nodes s) (name n) = Some (annotation d c)))) \<and>
   (\<forall>nd. tree_nodes TM (find_clades t) [] = Inr nd \<longrightarrow>
      distinct (map fst nd) \<and>
      fst ` set nd = (\<lambda>x. name (snd x)) ` set (find_clades t) \<and>
      length nd \<le> length (find_clades t) \<and>
      (length nd < length (find_clades t)) =
        (\<not> distinct (map (\<lambda>x. name (snd x)) (find_clades t))) \<and>
      (\<forall>xs p n ys.
         find_clades t = xs @ (p, n) # ys \<and> name n \<notin> (\<lambda>x. name (snd x)) ` set ys \<longrightarrow>
         (\<exists>d c. dTiter TM p = Some d \<and> cTiter TM p = Some c \<and>
                map_of nd (name n) = Some (tree_annotation d c))))"
proof (intro conjI allI impI)
  fix s assume s: "annotate M t = Inr s"
  show "distinct (map fst (nodes s))" by (rule annotate_nodes_keys(1)[OF s])
  show "fst ` set (nodes s) = (\<lambda>x. name (snd x)) ` set (find_clades t)"
    by (rule annotate_nodes_keys(2)[OF s])
  show "length (nodes s) \<le> length (find_clades t)"
    using names_count(1)[of "map (\<lambda>x. name (snd x)) (find_clades t)"]
    by (simp add: annotate_nodes_keys(3)[OF s])
  show "(length (nodes s) < length (find_clades t)) =
        (\<not> distinct (map (\<lambda>x. name (snd x)) (find_clades t)))"
    using names_count(2)[of "map (\<lambda>x. name (snd x)) (find_clades t)"]
    by (simp add: annotate_nodes_keys(3)[OF s])
next
  fix s xs a n par ys
  assume "annotate M t = Inr s"
    "annotation_order t = xs @ (a, n, par) # ys \<and> name n \<notin> visit_name ` set ys"
  then show "\<exists>c d. cTiterSub s a = Some c \<and>
                (case par of None \<Rightarrow> d = 0 | Some pn \<Rightarrow> dTiterSub M n pn = Inr d) \<and>
                map_of (nodes s) (name n) = Some (annotation d c)"
    using annotate_nodes_last[of M t s xs a n par ys] by blast
next
  fix nd assume nd: "tree_nodes TM (find_clades t) [] = Inr nd"
  show "distinct (map fst nd)" by (rule tree_nodes_keys(1)[OF nd])
  show "fst ` set nd = (\<lambda>x. name (snd x)) ` set (find_clades t)"
    by (rule tree_nodes_keys(2)[OF nd])
  show "length nd \<le> length (find_clades t)"
    using names_count(1)[of "map (\<lambda>x. name (snd x)) (find_clades t)"]
    by (simp add: tree_nodes_keys(3)[OF nd])
  show "(length nd < length (find_clades t)) =
        (\<not> distinct (map (\<lambda>x. name (snd x)) (find_clades t)))"
    using names_count(2)[of "map (\<lambda>x. name (snd x)) (find_clades t)"]
    by (simp add: tree_nodes_keys(3)[OF nd])
next
  fix nd xs p n ys
  assume "tree_nodes TM (find_clades t) [] = Inr nd"
    "find_clades t = xs @ (p, n) # ys \<and> name n \<notin> (\<lambda>x. name (snd x)) ` set ys"
  then show "\<exists>d c. dTiter TM p = Some d \<and> cTiter TM p = Some c \<and>
                map_of nd (name n) = Some (tree_annotation d c)"
    using tree_nodes_last[of TM "find_clades t" nd xs p n ys] by blast
qed

theorem nodes_keyed_by_name_witness:
  "annotate example_model dup_tree = Inr dup_state \<and>
   \<not> distinct (map (\<lambda>x. name (snd x)) (find_clades dup_tree)) \<and>
   length (nodes dup_state) < length (find_clades dup_tree) \<and>
   (\<exists>c d. cTiterSub dup_state [1, 0] = Some c \<and>
      dTiterSub example_model (Clade (Some ''X'') []) (Clade (Some ''B'') [Clade (Some ''X'') []]) = Inr d \<and>
      map_of (nodes dup_state) (Some ''X'') = Some (annotation d c)) \<and>
   tree_nodes dup_tree_model (find_clades dup_tree) [] =
     Inr [(Some ''root'', tree_annotation 0 0), (Some ''A'', tree_annotation 1 1),
          (Some ''X'', tree_annotation 4 4), (Some ''B'', tree_annotation 0 0)] \<and>
   length [(Some ''root'', tree_annotation 0 0), (Some ''A'', tree_annotation 1 1),
          (Some ''X'', tree_annotation 4 4), (Some ''B'', tree_annotation (0::real) 0)]
     < length (find_clades dup_tree)"
proof -
  note main = nodes_keyed_by_name[of example_model dup_tree dup_tree_model]
  have nd: "\<not> distinct (map (\<lambda>x. name (snd x)) (find_clades dup_tree))"
    by (simp add: dup_find_clades)
  have "(length (nodes dup_state) < length (find_clades dup_tree)) =
        (\<not> distinct (map (\<lambda>x. name (snd x)) (find_clades dup_tree)))"
    using main dup_annotate by blast
  with nd have len: "length (nodes dup_state) < length (find_clades dup_tree)" by simp
  have "annotation_order dup_tree =
     [([], dup_tree, None),
      ([0], Clade (Some ''A'') [Clade (Some ''X'') []], Some dup_tree),
      ([1], Clade (Some ''B'') [Clade (Some ''X'') []], Some dup_tree),
      ([0, 0], Clade (Some ''X'') [], Some (Clade (Some ''A'') [Clade (Some ''X'') []]))] @
     ([1, 0], Clade (Some ''X'') [], Some (Clade (Some ''B'') [Clade (Some ''X'') []])) # [] \<and>
     name (Clade (Some ''X'') []) \<notin> visit_name ` set []"
    using dup_annotation_order by simp
  moreover have "\<forall>xs a n par ys.
         annotation_order dup_tree = xs @ (a, n, par) # ys \<and> name n \<notin> visit_name ` set ys \<longrightarrow>
         (\<exists>c d. cTiterSub dup_state a = Some c \<and>
                (case par of None \<Rightarrow> d = 0 | Some pn \<Rightarrow> dTiterSub example_model n pn = Inr d) \<and>
                map_of (nodes dup_state) (name n) = Some (annotation d c))"
    using main dup_annotate by blast
  ultimately have "\<exists>c d. cTiterSub dup_state [1, 0] = Some c \<and>
      (case Some (Clade (Some ''B'') [Clade (Some ''X'') []]) of None \<Rightarrow> d = 0
       | Some pn \<Rightarrow> dTiterSub example_model (Clade (Some ''X'') []) pn = Inr d) \<and>
      map_of (nodes dup_state) (name (Clade (Some ''X'') [])) = Some (annotation d c)"
    by (elim allE impE) assumption+
  then have last: "\<exists>c d. cTiterSub dup_state [1, 0] = Some c \<and>
      dTiterSub example_model (Clade (Some ''X'') []) (Clade (Some ''B'') [Clade (Some ''X'') []]) = Inr d \<and>
      map_of (nodes dup_state) (Some ''X'') = Some (annotation d c)"
    by simp
  have "(length [(Some ''root'', tree_annotation 0 0), (Some ''A'', tree_annotation 1 1),
          (Some ''X'', tree_annotation 4 4), (Some ''B'', tree_annotation (0::real) 0)]
       < length (find_clades dup_tree)) =
        (\<not> distinct (map (\<lambda>x. name (snd x)) (find_clades dup_tree)))"
    using main dup_tree_nodes by blast
  with nd have "length [(Some ''root'', tree_annotation 0 0), (Some ''A'', tree_annotation 1 1),
          (Some ''X'', tree_annotation 4 4), (Some ''B'', tree_annotation (0::real) 0)]
       < length (find_clades dup_tree)" by blast
  with dup_annotate nd len last dup_tree_nodes show ?thesis by blast
qed

end
